theory Spec2Isabelle
  imports Complex_Main "HOL-Library.List_Lexorder"
begin

section \<open>Errors\<close>

text \<open>
  Every \<^verbatim>\<open>throw new Error(...)\<close> of \<^verbatim>\<open>code.js\<close> is a constructor, named as the
  specification names it: \<open>InvalidDigit\<close> for \<^verbatim>\<open>Invalid digit '<ch>' for base <base>\<close>,
  \<open>ZeroDenominator\<close> for \<^verbatim>\<open>Zero denominator\<close>, \<open>DivisionByZero\<close> for
  \<^verbatim>\<open>Division by zero\<close>. The source has no other \<^verbatim>\<open>throw\<close>. The two remaining
  constructors are the exceptions of the JavaScript runtime itself: \<open>TypeError\<close> for reading
  a property of \<^verbatim>\<open>undefined\<close>, \<open>RangeError\<close> for a BigInt division by \<^verbatim>\<open>0n\<close>.
\<close>

datatype error =
    InvalidDigit char int
  | ZeroDenominator
  | DivisionByZero
  | TypeError
  | RangeError

section \<open>Base-N integer parser\<close>

text \<open>
  A string is a list of code units; the model covers the code units 0 to 255 (one \<^typ>\<open>char\<close>
  each, read as Latin-1), on which \<^verbatim>\<open>trim\<close> and \<^verbatim>\<open>toLowerCase\<close> are as below.
\<close>

definition isWhiteSpace :: "char \<Rightarrow> bool" where
  "isWhiteSpace c = (of_char c \<in> {9, 10, 11, 12, 13, 32, 160 :: nat})"

definition trim :: "string \<Rightarrow> string" where
  "trim s = rev (dropWhile isWhiteSpace (rev (dropWhile isWhiteSpace s)))"

definition toLowerCaseChar :: "char \<Rightarrow> char" where
  "toLowerCaseChar c =
     (let v = (of_char c :: nat)
      in if (65 \<le> v \<and> v \<le> 90) \<or> (192 \<le> v \<and> v \<le> 222 \<and> v \<noteq> 215)
         then char_of (v + 32) else c)"

definition toLowerCase :: "string \<Rightarrow> string" where
  "toLowerCase s = map toLowerCaseChar s"

text \<open>The two branches that compute \<^verbatim>\<open>digit\<close> from a character (lines 11 and 12).\<close>

definition digitOf :: "char \<Rightarrow> int" where
  "digitOf ch =
     (if of_char CHR ''0'' \<le> (of_char ch :: nat) \<and> (of_char ch :: nat) \<le> of_char CHR ''9''
      then int (of_char ch) - int (of_char CHR ''0'')
      else int (of_char ch) - int (of_char CHR ''a'') + 10)"

text \<open>The \<^verbatim>\<open>for (const ch of ...)\<close> loop, \<open>val\<close> being the accumulator.\<close>

fun parseLoop :: "int \<Rightarrow> int \<Rightarrow> string \<Rightarrow> error + int" where
  "parseLoop base val [] = Inr val"
| "parseLoop base val (ch # rest) =
     (let digit = digitOf ch
      in if digit < 0 \<or> digit \<ge> base then Inl (InvalidDigit ch base)
         else parseLoop base (val * base + digit) rest)"

definition parseBigIntInBase :: "string \<Rightarrow> int \<Rightarrow> error + int" where
  "parseBigIntInBase str base = parseLoop base 0 (toLowerCase (trim str))"

section \<open>Exact rational arithmetic\<close>

text \<open>
  BigInt \<^verbatim>\<open>/\<close> truncates towards zero and \<^verbatim>\<open>%\<close> takes the sign of the dividend; both
  throw a RangeError on a zero divisor.
\<close>

definition bigIntQuot :: "int \<Rightarrow> int \<Rightarrow> int" where
  "bigIntQuot a b = sgn a * sgn b * (\<bar>a\<bar> div \<bar>b\<bar>)"

definition bigIntRem :: "int \<Rightarrow> int \<Rightarrow> int" where
  "bigIntRem a b = sgn a * (\<bar>a\<bar> mod \<bar>b\<bar>)"

definition bigIntAbs :: "int \<Rightarrow> int" where
  "bigIntAbs a = (if a < 0 then - a else a)"

text \<open>The \<^verbatim>\<open>while (b !== 0n)\<close> loop of \<^verbatim>\<open>bigIntGcd\<close>; the divisor of \<^verbatim>\<open>%\<close> is never zero.\<close>

function gcdLoop :: "int \<Rightarrow> int \<Rightarrow> int" where
  "gcdLoop a b = (if b = 0 then a else gcdLoop b (bigIntRem a b))"
  by pat_completeness auto
termination
  by (relation "measure (\<lambda>(a, b). nat \<bar>b\<bar>)") (auto simp: bigIntRem_def abs_mult)

declare gcdLoop.simps [simp del]

definition bigIntGcd :: "int \<Rightarrow> int \<Rightarrow> int" where
  "bigIntGcd a b = gcdLoop (bigIntAbs a) (bigIntAbs b)"

text \<open>
  The class \<^verbatim>\<open>Rational\<close>: the fields \<^verbatim>\<open>n\<close> and \<^verbatim>\<open>d\<close> are \<open>rn\<close> and \<open>rd\<close> here.
\<close>

record Rational =
  rn :: int
  rd :: int

text \<open>
  The constructor. The two divisions by \<open>g\<close> throw a RangeError when \<open>g\<close> is zero; lemma
  \<open>Rational_new_cases\<close> below shows that this branch is never taken.
\<close>

definition Rational_new :: "int \<Rightarrow> int \<Rightarrow> error + Rational" where
  "Rational_new n0 d0 =
     (if d0 = 0 then Inl ZeroDenominator
      else let n1 = (if d0 < 0 then - n0 else n0);
               d1 = (if d0 < 0 then - d0 else d0);
               g = bigIntGcd n1 d1
           in if g = 0 then Inl RangeError
              else Inr \<lparr>rn = bigIntQuot n1 g, rd = bigIntQuot d1 g\<rparr>)"

definition Rational_fromBigInt :: "int \<Rightarrow> error + Rational" where
  "Rational_fromBigInt x = Rational_new x 1"

definition Rational_add :: "Rational \<Rightarrow> Rational \<Rightarrow> error + Rational" where
  "Rational_add this other =
     Rational_new (rn this * rd other + rn other * rd this) (rd this * rd other)"

definition Rational_sub :: "Rational \<Rightarrow> Rational \<Rightarrow> error + Rational" where
  "Rational_sub this other =
     Rational_new (rn this * rd other - rn other * rd this) (rd this * rd other)"

definition Rational_mul :: "Rational \<Rightarrow> Rational \<Rightarrow> error + Rational" where
  "Rational_mul this other = Rational_new (rn this * rn other) (rd this * rd other)"

definition Rational_div :: "Rational \<Rightarrow> Rational \<Rightarrow> error + Rational" where
  "Rational_div this other =
     (if rn other = 0 then Inl DivisionByZero
      else Rational_new (rn this * rd other) (rd this * rn other))"

text \<open>The canonical form of the data model, and the number a fraction stands for.\<close>

definition canonical :: "Rational \<Rightarrow> bool" where
  "canonical r = (0 < rd r \<and> gcd \<bar>rn r\<bar> (rd r) = 1)"

definition valueOf :: "Rational \<Rightarrow> rat" where
  "valueOf r = of_int (rn r) / of_int (rd r)"

text \<open>An operation succeeds with the canonical fraction of the number \<open>v\<close>.\<close>

definition represents :: "error + Rational \<Rightarrow> rat \<Rightarrow> bool" where
  "represents res v = (\<exists>r. res = Inr r \<and> canonical r \<and> valueOf r = v)"

section \<open>Lagrange interpolator\<close>

record point =
  px :: int
  py :: int

text \<open>
  The inner loop of \<^verbatim>\<open>lagrangeEvalAt\<close> over \<open>j\<close>, with the pair \<open>(num, den)\<close> as its
  state; \<open>j = i\<close> is the \<^verbatim>\<open>continue\<close>.
\<close>

fun lagrangeInner ::
  "point list \<Rightarrow> int \<Rightarrow> int \<Rightarrow> nat \<Rightarrow> nat list \<Rightarrow> Rational \<times> Rational
     \<Rightarrow> error + Rational \<times> Rational" where
  "lagrangeInner points x0 xi i [] nd = Inr nd"
| "lagrangeInner points x0 xi i (j # js) nd =
     (if j = i then lagrangeInner points x0 xi i js nd
      else
        (case Rational_new (x0 - px (points ! j)) 1 of Inl e \<Rightarrow> Inl e | Inr a \<Rightarrow>
        (case Rational_mul (fst nd) a of Inl e \<Rightarrow> Inl e | Inr num \<Rightarrow>
        (case Rational_new (xi - px (points ! j)) 1 of Inl e \<Rightarrow> Inl e | Inr b \<Rightarrow>
        (case Rational_mul (snd nd) b of Inl e \<Rightarrow> Inl e | Inr den \<Rightarrow>
           lagrangeInner points x0 xi i js (num, den))))))"

text \<open>The outer loop over \<open>i\<close>; its state \<open>acc\<close> is the variable \<^verbatim>\<open>sum\<close>.\<close>

fun lagrangeOuter :: "point list \<Rightarrow> int \<Rightarrow> nat list \<Rightarrow> Rational \<Rightarrow> error + Rational" where
  "lagrangeOuter points x0 [] acc = Inr acc"
| "lagrangeOuter points x0 (i # is) acc =
     (case Rational_new 1 1 of Inl e \<Rightarrow> Inl e | Inr num1 \<Rightarrow>
     (case Rational_new 1 1 of Inl e \<Rightarrow> Inl e | Inr den1 \<Rightarrow>
     (case lagrangeInner points x0 (px (points ! i)) i [0..<length points] (num1, den1) of
        Inl e \<Rightarrow> Inl e
      | Inr nd \<Rightarrow>
     (case Rational_div (fst nd) (snd nd) of Inl e \<Rightarrow> Inl e | Inr li \<Rightarrow>
     (case Rational_fromBigInt (py (points ! i)) of Inl e \<Rightarrow> Inl e | Inr ry \<Rightarrow>
     (case Rational_mul ry li of Inl e \<Rightarrow> Inl e | Inr t \<Rightarrow>
     (case Rational_add acc t of Inl e \<Rightarrow> Inl e | Inr acc' \<Rightarrow>
        lagrangeOuter points x0 is acc')))))))"

definition lagrangeEvalAt :: "point list \<Rightarrow> int \<Rightarrow> error + Rational" where
  "lagrangeEvalAt points x0 =
     (case Rational_new 0 1 of Inl e \<Rightarrow> Inl e
      | Inr acc \<Rightarrow> lagrangeOuter points x0 [0..<length points] acc)"

text \<open>
  The value the specification gives for the evaluator: the sum over \<open>i\<close> of \<open>y\<^sub>i\<close> times
  the product over \<open>j \<noteq> i\<close> of \<open>(x0 - x\<^sub>j) / (x\<^sub>i - x\<^sub>j)\<close>, as a rational number. A
  polynomial of degree below \<open>m\<close> is given by its coefficients \<open>c 0, \<dots>, c (m - 1)\<close>.
\<close>

definition lagrangeFormula :: "point list \<Rightarrow> rat \<Rightarrow> rat" where
  "lagrangeFormula points z =
     (\<Sum>i<length points. of_int (py (points ! i)) *
        (\<Prod>j\<in>{..<length points} - {i}.
           (z - of_int (px (points ! j))) /
           (of_int (px (points ! i)) - of_int (px (points ! j)))))"

definition polyEval :: "(nat \<Rightarrow> rat) \<Rightarrow> nat \<Rightarrow> rat \<Rightarrow> rat" where
  "polyEval c m x = (\<Sum>i<m. c i * x ^ i)"

definition passesThrough :: "(nat \<Rightarrow> rat) \<Rightarrow> nat \<Rightarrow> point list \<Rightarrow> bool" where
  "passesThrough c m points =
     list_all (\<lambda>p. polyEval c m (of_int (px p)) = of_int (py p)) points"

definition polyFun :: "nat \<Rightarrow> (rat \<Rightarrow> rat) \<Rightarrow> bool" where
  "polyFun m f = (\<exists>c. \<forall>z. f z = polyEval c m z)"

text \<open>Numerator and denominator of the basis polynomial \<open>i\<close>, as the inner loop builds them.\<close>

definition basisNum :: "point list \<Rightarrow> int \<Rightarrow> nat \<Rightarrow> rat" where
  "basisNum points x0 i =
     (\<Prod>j\<leftarrow>filter (\<lambda>j. j \<noteq> i) [0..<length points]. of_int (x0 - px (points ! j)))"

definition basisDen :: "point list \<Rightarrow> nat \<Rightarrow> rat" where
  "basisDen points i =
     (\<Prod>j\<leftarrow>filter (\<lambda>j. j \<noteq> i) [0..<length points].
        of_int (px (points ! i) - px (points ! j)))"

section \<open>Subset combinator\<close>

text \<open>
  The generator \<^verbatim>\<open>combinations\<close> is a cursor: its state is the array \<open>idx\<close>, and
  \<open>comb_next\<close> is the code between two \<^verbatim>\<open>yield\<close>s, \<open>None\<close> being the \<^verbatim>\<open>break\<close>.
  Reading an array beyond its end gives \<^verbatim>\<open>undefined\<close>, here \<open>None\<close>.
\<close>

definition jsIndex :: "'a list \<Rightarrow> nat \<Rightarrow> 'a option" where
  "jsIndex arr i = (if i < length arr then Some (arr ! i) else None)"

text \<open>
  \<^verbatim>\<open>let i = k - 1; while (i >= 0 && idx[i] === i + n - k) i--;\<close> The argument counts
  \<open>i + 1\<close>, so that 0 stands for \<open>i < 0\<close>.
\<close>

fun scan :: "nat \<Rightarrow> nat \<Rightarrow> nat list \<Rightarrow> nat \<Rightarrow> nat option" where
  "scan n k idx 0 = None"
| "scan n k idx (Suc i) =
     (if int (idx ! i) = int i + int n - int k then scan n k idx i else Some i)"

text \<open>\<^verbatim>\<open>idx[i]++; for (let j = i + 1; j < k; j++) idx[j] = idx[j - 1] + 1;\<close>\<close>

definition advance :: "nat list \<Rightarrow> nat \<Rightarrow> nat \<Rightarrow> nat list" where
  "advance idx i k =
     fold (\<lambda>j a. a[j := a ! (j - 1) + 1]) [Suc i..<k] (idx[i := idx ! i + 1])"

definition comb_next :: "nat \<Rightarrow> nat \<Rightarrow> nat list \<Rightarrow> nat list option" where
  "comb_next n k idx =
     (case scan n k idx k of None \<Rightarrow> None | Some i \<Rightarrow> Some (advance idx i k))"

text \<open>
  All the subsets the generator yields from the state \<open>idx\<close> on, when it is run to its
  end; \<open>None\<close> when it never ends.
\<close>

partial_function (option) comb_run :: "'a list \<Rightarrow> nat \<Rightarrow> nat list \<Rightarrow> 'a option list list option"
  where
  "comb_run arr k idx =
     (case comb_next (length arr) k idx of
        None \<Rightarrow> Some [map (jsIndex arr) idx]
      | Some idx' \<Rightarrow>
          Option.bind (comb_run arr k idx') (\<lambda>rest. Some (map (jsIndex arr) idx # rest)))"

declare comb_run.simps [code]

definition combinations :: "'a list \<Rightarrow> nat \<Rightarrow> 'a option list list option" where
  "combinations arr k = (if k = 0 then Some [[]] else comb_run arr k [0..<k])"

text \<open>
  The index tuples of the specification: \<open>k\<close> strictly increasing positions below \<open>n\<close>.
  Lists are compared lexicographically.
\<close>

definition isCombination :: "nat \<Rightarrow> nat \<Rightarrow> nat list \<Rightarrow> bool" where
  "isCombination n k t = (length t = k \<and> sorted_wrt (<) t \<and> list_all (\<lambda>i. i < n) t)"

section \<open>Consistency solver\<close>

record share =
  share_idx :: int
  share_x :: int
  share_y :: int

text \<open>
  The input object: \<^verbatim>\<open>keys.n\<close>, \<^verbatim>\<open>keys.k\<close> (non-negative integers) and, in the order
  of \<^verbatim>\<open>Object.keys\<close>, every other property as \<open>(Number(prop), base, value)\<close>, the property
  names being integers.
\<close>

record input =
  keys_n :: nat
  keys_k :: nat
  props :: "(int \<times> int \<times> string) list"

record best =
  agreeCount :: int
  secretF0 :: "int option"
  subset_idxs :: "nat option list option"
  agrees :: "bool list option"

record result =
  res_k :: nat
  res_degree :: int
  res_secretF0 :: string
  consistentShareIndices :: "int list"
  inconsistentShareIndices :: "int list"

fun parseShares :: "(int \<times> int \<times> string) list \<Rightarrow> error + share list" where
  "parseShares [] = Inr []"
| "parseShares ((i, base, v) # rest) =
     (case parseBigIntInBase v base of Inl e \<Rightarrow> Inl e | Inr y \<Rightarrow>
     (case parseShares rest of Inl e \<Rightarrow> Inl e | Inr ss \<Rightarrow>
        Inr (\<lparr>share_idx = i, share_x = i, share_y = y\<rparr> # ss)))"

text \<open>
  \<^verbatim>\<open>idxs.map(i => ({ x: shares[i].x, y: shares[i].y }))\<close>: \<^verbatim>\<open>shares[i]\<close> is
  \<^verbatim>\<open>undefined\<close> when \<open>i\<close> is, or when \<open>i\<close> is beyond the end, and reading its \<^verbatim>\<open>x\<close>
  is a TypeError.
\<close>

fun subsetPoints :: "share list \<Rightarrow> nat option list \<Rightarrow> error + point list" where
  "subsetPoints shares [] = Inr []"
| "subsetPoints shares (None # rest) = Inl TypeError"
| "subsetPoints shares (Some i # rest) =
     (if i < length shares
      then (case subsetPoints shares rest of Inl e \<Rightarrow> Inl e
            | Inr ps \<Rightarrow> Inr (\<lparr>px = share_x (shares ! i), py = share_y (shares ! i)\<rparr> # ps))
      else Inl TypeError)"

text \<open>The loop over all \<open>n\<close> shares that fills \<open>agreeMask\<close> and \<open>count\<close>.\<close>

fun agreeLoop ::
  "share list \<Rightarrow> point list \<Rightarrow> nat list \<Rightarrow> bool list \<times> int \<Rightarrow> error + bool list \<times> int" where
  "agreeLoop shares pts [] mc = Inr mc"
| "agreeLoop shares pts (i # is) mc =
     (if i < length shares
      then (case lagrangeEvalAt pts (share_x (shares ! i)) of Inl e \<Rightarrow> Inl e
            | Inr expected \<Rightarrow>
                if rd expected = 1 \<and> rn expected = share_y (shares ! i)
                then agreeLoop shares pts is ((fst mc)[i := True], snd mc + 1)
                else agreeLoop shares pts is mc)
      else Inl TypeError)"

text \<open>
  The body of the \<^verbatim>\<open>for (const idxs of ...)\<close> loop: the new \<open>best\<close>, and whether the
  \<^verbatim>\<open>break\<close> was taken.
\<close>

definition trySubset :: "share list \<Rightarrow> nat \<Rightarrow> nat option list \<Rightarrow> best \<Rightarrow> error + best \<times> bool"
  where
  "trySubset shares n idxs b =
     (case subsetPoints shares idxs of Inl e \<Rightarrow> Inl e | Inr pts \<Rightarrow>
     (case lagrangeEvalAt pts 0 of Inl e \<Rightarrow> Inl e | Inr f0 \<Rightarrow>
        if rd f0 \<noteq> 1 then Inr (b, False)
        else
          (case agreeLoop shares pts [0..<n] (replicate n False, 0) of Inl e \<Rightarrow> Inl e
           | Inr mc \<Rightarrow>
               if snd mc > agreeCount b
               then Inr (\<lparr>agreeCount = snd mc, secretF0 = Some (rn f0),
                           subset_idxs = Some idxs, agrees = Some (fst mc)\<rparr>,
                         snd mc = int n)
               else Inr (b, False))))"

text \<open>
  The loop itself drives the generator: the next subset is only asked for when the body
  has not left the loop, so no state after a \<^verbatim>\<open>break\<close> or an exception is computed.
  \<open>None\<close> is a search that never ends.
\<close>

partial_function (option) searchFrom ::
  "share list \<Rightarrow> nat \<Rightarrow> nat \<Rightarrow> nat list \<Rightarrow> best \<Rightarrow> (error + best) option" where
  "searchFrom shares n k idx b =
     (case trySubset shares n (map (jsIndex [0..<length shares]) idx) b of
        Inl e \<Rightarrow> Some (Inl e)
      | Inr bb \<Rightarrow>
          if snd bb then Some (Inr (fst bb))
          else (case comb_next (length shares) k idx of
                  None \<Rightarrow> Some (Inr (fst bb))
                | Some idx' \<Rightarrow> searchFrom shares n k idx' (fst bb)))"

declare searchFrom.simps [code]

text \<open>\<^verbatim>\<open>let best = { agreeCount: -1 }\<close>: the other fields are still \<^verbatim>\<open>undefined\<close>.\<close>

definition initialBest :: best where
  "initialBest = \<lparr>agreeCount = - 1, secretF0 = None, subset_idxs = None, agrees = None\<rparr>"

text \<open>
  The whole loop over \<^verbatim>\<open>combinations(indices, k)\<close>, \<open>indices\<close> being the positions
  \<open>[0..<length shares]\<close>. For \<open>k = 0\<close> the generator yields the empty subset and returns.
\<close>

definition search :: "share list \<Rightarrow> nat \<Rightarrow> nat \<Rightarrow> (error + best) option" where
  "search shares n k =
     (if k = 0
      then (case trySubset shares n [] initialBest of Inl e \<Rightarrow> Some (Inl e)
            | Inr bb \<Rightarrow> Some (Inr (fst bb)))
      else searchFrom shares n k [0..<k] initialBest)"

text \<open>
  The same loop over a list of subsets that is already there, in its order: what the
  search computes when the generator yields exactly this list.
\<close>

fun searchList :: "share list \<Rightarrow> nat \<Rightarrow> nat option list list \<Rightarrow> best \<Rightarrow> error + best" where
  "searchList shares n [] b = Inr b"
| "searchList shares n (idxs # rest) b =
     (case trySubset shares n idxs b of Inl e \<Rightarrow> Inl e
      | Inr bb \<Rightarrow> if snd bb then Inr (fst bb) else searchList shares n rest (fst bb))"

text \<open>
  Whether share \<open>i\<close> is in agreement with the polynomial through \<open>pts\<close>: the test of the
  inner loop of the solver.
\<close>

definition agreesWith :: "share list \<Rightarrow> point list \<Rightarrow> nat \<Rightarrow> bool" where
  "agreesWith shares pts i =
     (case lagrangeEvalAt pts (share_x (shares ! i)) of Inl e \<Rightarrow> False
      | Inr expected \<Rightarrow> rd expected = 1 \<and> rn expected = share_y (shares ! i))"

text \<open>
  What holds of a candidate that the loop body has stored, for \<open>n\<close> shares and threshold
  \<open>k\<close>: its mask has length \<open>n\<close>, its count is the number of flags set and is at least \<open>k\<close>.
\<close>

definition goodBest :: "nat \<Rightarrow> nat \<Rightarrow> best \<Rightarrow> bool" where
  "goodBest n k b =
     (\<exists>flags. agrees b = Some flags \<and> length flags = n
        \<and> agreeCount b = int (length (filter (\<lambda>i. flags ! i) [0..<n]))
        \<and> int k \<le> agreeCount b)"

text \<open>
  The last loop: \<^verbatim>\<open>best.agrees[i]\<close> is a TypeError when \<^verbatim>\<open>best.agrees\<close> is
  \<^verbatim>\<open>undefined\<close>, and \<^verbatim>\<open>shares[i].idx\<close> when \<open>i\<close> is beyond the end of \<open>shares\<close>.
\<close>

fun classify ::
  "share list \<Rightarrow> bool list option \<Rightarrow> nat list \<Rightarrow> int list \<times> int list
     \<Rightarrow> error + int list \<times> int list" where
  "classify shares ag [] ci = Inr ci"
| "classify shares ag (i # is) ci =
     (case ag of None \<Rightarrow> Inl TypeError
      | Some flags \<Rightarrow>
          if i < length shares
          then (if i < length flags \<and> flags ! i
                then classify shares ag is (fst ci @ [share_idx (shares ! i)], snd ci)
                else classify shares ag is (fst ci, snd ci @ [share_idx (shares ! i)]))
          else Inl TypeError)"

text \<open>\<^verbatim>\<open>toString\<close> of a BigInt: its decimal digits, after a minus sign when negative.\<close>

fun natToString :: "nat \<Rightarrow> string" where
  "natToString m =
     (if m < 10 then [char_of (48 + m)]
      else natToString (m div 10) @ [char_of (48 + m mod 10)])"

declare natToString.simps [simp del]

definition bigIntToString :: "int \<Rightarrow> string" where
  "bigIntToString i = (if i < 0 then CHR ''-'' # natToString (nat (- i)) else natToString (nat i))"

definition solveShamirLike :: "input \<Rightarrow> (error + result) option" where
  "solveShamirLike inputObj =
     (let n = keys_n inputObj; k = keys_k inputObj
      in case parseShares (props inputObj) of Inl e \<Rightarrow> Some (Inl e)
         | Inr parsed \<Rightarrow>
             let shares = sort_key share_idx parsed
             in (case search shares n k of None \<Rightarrow> None
                 | Some (Inl e) \<Rightarrow> Some (Inl e)
                 | Some (Inr b) \<Rightarrow>
                     (case classify shares (agrees b) [0..<n] ([], []) of
                        Inl e \<Rightarrow> Some (Inl e)
                      | Inr ci \<Rightarrow>
                          (case secretF0 b of None \<Rightarrow> Some (Inl TypeError)
                           | Some f \<Rightarrow>
                               Some (Inr \<lparr>res_k = k, res_degree = int k - 1,
                                          res_secretF0 = bigIntToString f,
                                          consistentShareIndices = fst ci,
                                          inconsistentShareIndices = snd ci\<rparr>)))))"

section \<open>Exact rational arithmetic: the constructor\<close>

lemma gcdLoop_gcd: "0 \<le> a \<Longrightarrow> 0 \<le> b \<Longrightarrow> gcdLoop a b = gcd a b"
proof (induction a b rule: gcdLoop.induct)
  case (1 a b)
  show ?case
  proof (cases "b = 0")
    case True
    with 1 show ?thesis by (simp add: gcdLoop.simps)
  next
    case False
    have r: "bigIntRem a b = a mod b"
      using 1(2,3) False by (cases "a = 0") (simp_all add: bigIntRem_def)
    have "gcdLoop a b = gcdLoop b (a mod b)"
      using False r by (subst gcdLoop.simps) simp
    also have "\<dots> = gcd b (a mod b)"
      using 1 False r by simp
    also have "\<dots> = gcd a b"
      by (rule gcd_red_int [symmetric])
    finally show ?thesis .
  qed
qed

lemma bigIntGcd_gcd: "bigIntGcd a b = gcd a b"
  by (simp add: bigIntGcd_def bigIntAbs_def gcdLoop_gcd)

lemma bigIntQuot_dvd: "0 < g \<Longrightarrow> g dvd a \<Longrightarrow> bigIntQuot a g = a div g"
proof -
  assume g: "0 < g" and dv: "g dvd a"
  then obtain q where q: "a = g * q" by (auto simp: dvd_def)
  show ?thesis
    using g by (simp add: bigIntQuot_def q abs_mult sgn_mult mult_sgn_abs)
qed

lemma Rational_new_cases:
  "Rational_new n0 d0 =
     (if d0 = 0 then Inl ZeroDenominator
      else Inr \<lparr>rn = (sgn d0 * n0) div gcd n0 d0, rd = \<bar>d0\<bar> div gcd n0 d0\<rparr>)"
proof (cases "d0 = 0")
  case True
  then show ?thesis by (simp add: Rational_new_def)
next
  case False
  define n1 where "n1 = (if d0 < 0 then - n0 else n0)"
  define d1 where "d1 = (if d0 < 0 then - d0 else d0)"
  have g: "bigIntGcd n1 d1 = gcd n0 d0" by (simp add: bigIntGcd_gcd n1_def d1_def)
  have gpos: "0 < gcd n0 d0" using False by simp
  have n1: "n1 = sgn d0 * n0" using False by (simp add: n1_def sgn_if)
  have d1: "d1 = \<bar>d0\<bar>" by (simp add: d1_def)
  have dn: "gcd n0 d0 dvd n1" by (simp add: n1)
  have dd: "gcd n0 d0 dvd d1" by (simp add: d1)
  show ?thesis
    using False gpos bigIntQuot_dvd [OF gpos dn] bigIntQuot_dvd [OF gpos dd] g
    by (simp add: Rational_new_def Let_def n1_def [symmetric] d1_def [symmetric])
       (simp add: n1 d1)
qed

lemma Rational_new_canonical: "Rational_new n0 d0 = Inr r \<Longrightarrow> canonical r"
proof -
  assume a: "Rational_new n0 d0 = Inr r"
  then have nz: "d0 \<noteq> 0" by (auto simp: Rational_new_cases split: if_splits)
  then have r: "r = \<lparr>rn = (sgn d0 * n0) div gcd n0 d0, rd = \<bar>d0\<bar> div gcd n0 d0\<rparr>"
    using a by (simp add: Rational_new_cases)
  have gpos: "0 < gcd n0 d0" using nz by simp
  have "gcd n0 d0 \<le> \<bar>d0\<bar>" using nz by (simp add: gcd_le2_int zdvd_imp_le)
  then have p: "0 < \<bar>d0\<bar> div gcd n0 d0"
    using gpos by (simp add: pos_imp_zdiv_pos_iff)
  have "gcd (sgn d0 * n0) \<bar>d0\<bar> = gcd n0 d0"
    using nz by (simp add: sgn_if)
  then have "gcd ((sgn d0 * n0) div gcd n0 d0) (\<bar>d0\<bar> div gcd n0 d0) = 1"
    using div_gcd_coprime [of "sgn d0 * n0" "\<bar>d0\<bar>"] nz by (simp add: coprime_iff_gcd_eq_1)
  with p show ?thesis by (simp add: canonical_def r)
qed

lemma Rational_new_value:
  "Rational_new n0 d0 = Inr r \<Longrightarrow> valueOf r = of_int n0 / of_int d0"
proof -
  assume a: "Rational_new n0 d0 = Inr r"
  then have nz: "d0 \<noteq> 0" by (auto simp: Rational_new_cases split: if_splits)
  then have r: "r = \<lparr>rn = (sgn d0 * n0) div gcd n0 d0, rd = \<bar>d0\<bar> div gcd n0 d0\<rparr>"
    using a by (simp add: Rational_new_cases)
  define g where "g = gcd n0 d0"
  have gnz: "g \<noteq> 0" using nz by (simp add: g_def)
  obtain a' where a': "sgn d0 * n0 = g * a'" by (metis dvd_def dvd_mult gcd_dvd1 g_def mult.commute)
  obtain b' where b': "\<bar>d0\<bar> = g * b'" by (metis dvd_def gcd_dvd2 g_def dvd_abs_iff)
  have "valueOf r = of_int a' / of_int b'"
    using gnz by (simp add: valueOf_def r g_def [symmetric] a' b')
  also have "\<dots> = of_int (g * a') / of_int (g * b')"
    using gnz by simp
  also have "\<dots> = of_int (sgn d0 * n0) / of_int \<bar>d0\<bar>"
    by (simp only: a' b')
  also have "\<dots> = of_int n0 / of_int d0"
    using nz by (simp add: sgn_if abs_if)
  finally show ?thesis .
qed

section \<open>Parser: results\<close>

lemma trim_all_whitespace: "\<forall>c\<in>set s. isWhiteSpace c \<Longrightarrow> trim s = []"
  by (auto simp: trim_def dest: set_dropWhileD)

text \<open>
  C10. For every base (so for every base from 2 to 36), the parser applied to the empty
  string, or to a string that consists of whitespace only, succeeds and returns 0.
\<close>

theorem parseBigIntInBase_blank:
  "\<forall>c\<in>set s. isWhiteSpace c \<Longrightarrow> parseBigIntInBase s base = Inr 0"
  by (simp add: parseBigIntInBase_def toLowerCase_def trim_all_whitespace)

theorem parseBigIntInBase_blank_witness:
  "isWhiteSpace CHR '' '' \<and> parseBigIntInBase '' '' 10 = Inr 0
   \<and> parseBigIntInBase [] 2 = Inr 0"
proof -
  have h: "\<forall>c\<in>set '' ''. isWhiteSpace c" by (simp add: isWhiteSpace_def)
  have e: "\<forall>c\<in>set ([] :: string). isWhiteSpace c" by simp
  show ?thesis
    using h parseBigIntInBase_blank [OF h, of 10] parseBigIntInBase_blank [OF e, of 2]
    by simp
qed

text \<open>
  C4, where the code departs from it. The character \<^verbatim>\<open>[\<close> (code 91) is neither a digit nor
  a letter, is unchanged by trimming and lowercasing, and is read by the \<^verbatim>\<open>else\<close> branch
  as 91 - 97 + 10 = 4: in base 10 the parser returns 4 instead of failing.
\<close>

theorem parseBigIntInBase_bracket: "parseBigIntInBase ''['' 10 = Inr 4"
  by (simp add: parseBigIntInBase_def toLowerCase_def toLowerCaseChar_def trim_def
      isWhiteSpace_def digitOf_def)

section \<open>Exact rational arithmetic: the operations\<close>

lemma canonical_rd_nz: "canonical r \<Longrightarrow> rd r \<noteq> 0"
  by (simp add: canonical_def)

lemma Rational_new_represents:
  "d0 \<noteq> 0 \<Longrightarrow> represents (Rational_new n0 d0) (of_int n0 / of_int d0)"
proof -
  assume nz: "d0 \<noteq> 0"
  then obtain r where r: "Rational_new n0 d0 = Inr r" by (simp add: Rational_new_cases)
  then show ?thesis
    using Rational_new_canonical [OF r] Rational_new_value [OF r] by (simp add: represents_def)
qed

lemma Rational_fromBigInt_represents: "represents (Rational_fromBigInt x) (of_int x)"
  using Rational_new_represents [of 1 x] by (simp add: Rational_fromBigInt_def)

lemma Rational_mul_represents:
  assumes "canonical a" "canonical b"
  shows "represents (Rational_mul a b) (valueOf a * valueOf b)"
proof -
  have nz: "rd a * rd b \<noteq> 0" using assms by (simp add: canonical_def)
  show ?thesis
    using Rational_new_represents [OF nz, of "rn a * rn b"]
    by (simp add: Rational_mul_def valueOf_def)
qed

lemma Rational_add_represents:
  assumes "canonical a" "canonical b"
  shows "represents (Rational_add a b) (valueOf a + valueOf b)"
proof -
  have nz: "rd a * rd b \<noteq> 0" using assms by (simp add: canonical_def)
  have a: "rd a \<noteq> 0" and b: "rd b \<noteq> 0" using assms by (simp_all add: canonical_def)
  show ?thesis
    using Rational_new_represents [OF nz, of "rn a * rd b + rn b * rd a"] a b
    by (simp add: Rational_add_def valueOf_def add_frac_eq)
qed

lemma Rational_sub_represents:
  assumes "canonical a" "canonical b"
  shows "represents (Rational_sub a b) (valueOf a - valueOf b)"
proof -
  have nz: "rd a * rd b \<noteq> 0" using assms by (simp add: canonical_def)
  have a: "rd a \<noteq> 0" and b: "rd b \<noteq> 0" using assms by (simp_all add: canonical_def)
  show ?thesis
    using Rational_new_represents [OF nz, of "rn a * rd b - rn b * rd a"] a b
    by (simp add: Rational_sub_def valueOf_def diff_frac_eq)
qed

lemma Rational_div_represents:
  assumes "canonical a" "canonical b" "rn b \<noteq> 0"
  shows "represents (Rational_div a b) (valueOf a / valueOf b)"
proof -
  have nz: "rd a * rn b \<noteq> 0" using assms by (simp add: canonical_def)
  show ?thesis
    using Rational_new_represents [OF nz, of "rn a * rd b"] assms(3)
    by (simp add: Rational_div_def valueOf_def)
qed

lemma canonical_integer: "canonical r \<Longrightarrow> (rd r = 1) = (valueOf r \<in> \<int>)"
proof
  assume "rd r = 1"
  then show "valueOf r \<in> \<int>" by (simp add: valueOf_def)
next
  assume c: "canonical r" and v: "valueOf r \<in> \<int>"
  from v obtain m :: int where m: "valueOf r = of_int m" by (auto elim: Ints_cases)
  have dpos: "0 < rd r" using c by (simp add: canonical_def)
  then have "(of_int (rn r) :: rat) = of_int m * of_int (rd r)"
    using m by (simp add: valueOf_def field_simps)
  then have "rn r = m * rd r" by (metis of_int_mult of_int_eq_iff)
  then have "rd r dvd \<bar>rn r\<bar>" by simp
  then have "gcd \<bar>rn r\<bar> (rd r) = rd r" using dpos by (simp add: gcd_proj2_if_dvd)
  then show "rd r = 1" using c by (simp add: canonical_def)
qed

lemma canonical_of_int:
  assumes "canonical r" "valueOf r = of_int m"
  shows "rd r = 1 \<and> rn r = m"
proof -
  have d: "rd r = 1" using canonical_integer [OF assms(1)] assms(2) by simp
  then show ?thesis using assms(2) by (simp add: valueOf_def)
qed

text \<open>
  C6. Every fraction that the constructor or one of \<open>add\<close>, \<open>sub\<close>, \<open>mul\<close>, \<open>div\<close>
  produces is in canonical form: its denominator is positive and coprime to its numerator.
  For a canonical fraction the denominator is 1 exactly when its value is an integer.
\<close>

theorem Rational_invariant:
  "(Rational_new n0 d0 = Inr r0 \<longrightarrow> canonical r0)
   \<and> (Rational_fromBigInt x = Inr r1 \<longrightarrow> canonical r1)
   \<and> (Rational_add a2 b2 = Inr r2 \<longrightarrow> canonical r2)
   \<and> (Rational_sub a3 b3 = Inr r3 \<longrightarrow> canonical r3)
   \<and> (Rational_mul a4 b4 = Inr r4 \<longrightarrow> canonical r4)
   \<and> (Rational_div a5 b5 = Inr r5 \<longrightarrow> canonical r5)
   \<and> (canonical r6 \<longrightarrow> (rd r6 = 1) = (valueOf r6 \<in> \<int>))"
proof -
  have "Rational_div a5 b5 = Inr r5 \<longrightarrow> canonical r5"
    by (auto simp: Rational_div_def split: if_splits dest: Rational_new_canonical)
  then show ?thesis
    by (auto simp: Rational_fromBigInt_def Rational_add_def Rational_sub_def Rational_mul_def
        canonical_integer dest: Rational_new_canonical)
qed

theorem Rational_invariant_witness:
  "Rational_new 6 (- 4) = Inr \<lparr>rn = - 3, rd = 2\<rparr> \<and> canonical \<lparr>rn = - 3, rd = 2\<rparr>
   \<and> Rational_fromBigInt 7 = Inr \<lparr>rn = 7, rd = 1\<rparr> \<and> canonical \<lparr>rn = 7, rd = 1\<rparr>
   \<and> Rational_add \<lparr>rn = 1, rd = 6\<rparr> \<lparr>rn = 1, rd = 3\<rparr> = Inr \<lparr>rn = 1, rd = 2\<rparr>
   \<and> Rational_sub \<lparr>rn = 1, rd = 6\<rparr> \<lparr>rn = 1, rd = 2\<rparr> = Inr \<lparr>rn = - 1, rd = 3\<rparr>
   \<and> Rational_mul \<lparr>rn = 2, rd = 3\<rparr> \<lparr>rn = 3, rd = 4\<rparr> = Inr \<lparr>rn = 1, rd = 2\<rparr>
   \<and> Rational_div \<lparr>rn = 2, rd = 3\<rparr> \<lparr>rn = - 4, rd = 3\<rparr> = Inr \<lparr>rn = - 1, rd = 2\<rparr>
   \<and> canonical \<lparr>rn = 1, rd = 2\<rparr> \<and> canonical \<lparr>rn = - 1, rd = 3\<rparr>
   \<and> canonical \<lparr>rn = - 1, rd = 2\<rparr>
   \<and> (rd \<lparr>rn = 7, rd = 1\<rparr> = 1) = (valueOf \<lparr>rn = 7, rd = 1\<rparr> \<in> \<int>)"
proof -
  have h0: "Rational_new 6 (- 4) = Inr \<lparr>rn = - 3, rd = 2\<rparr>" by code_simp
  have h1: "Rational_fromBigInt 7 = Inr \<lparr>rn = 7, rd = 1\<rparr>" by code_simp
  have h2: "Rational_add \<lparr>rn = 1, rd = 6\<rparr> \<lparr>rn = 1, rd = 3\<rparr> = Inr \<lparr>rn = 1, rd = 2\<rparr>"
    by code_simp
  have h3: "Rational_sub \<lparr>rn = 1, rd = 6\<rparr> \<lparr>rn = 1, rd = 2\<rparr> = Inr \<lparr>rn = - 1, rd = 3\<rparr>"
    by code_simp
  have h4: "Rational_mul \<lparr>rn = 2, rd = 3\<rparr> \<lparr>rn = 3, rd = 4\<rparr> = Inr \<lparr>rn = 1, rd = 2\<rparr>"
    by code_simp
  have h5: "Rational_div \<lparr>rn = 2, rd = 3\<rparr> \<lparr>rn = - 4, rd = 3\<rparr> = Inr \<lparr>rn = - 1, rd = 2\<rparr>"
    by code_simp
  have h6: "canonical \<lparr>rn = 7, rd = 1\<rparr>" by (simp add: canonical_def)
  show ?thesis
    using h0 h1 h2 h3 h4 h5 h6
      Rational_invariant [of 6 "- 4" "\<lparr>rn = - 3, rd = 2\<rparr>" 7 "\<lparr>rn = 7, rd = 1\<rparr>"
        "\<lparr>rn = 1, rd = 6\<rparr>" "\<lparr>rn = 1, rd = 3\<rparr>" "\<lparr>rn = 1, rd = 2\<rparr>"
        "\<lparr>rn = 1, rd = 6\<rparr>" "\<lparr>rn = 1, rd = 2\<rparr>" "\<lparr>rn = - 1, rd = 3\<rparr>"
        "\<lparr>rn = 2, rd = 3\<rparr>" "\<lparr>rn = 3, rd = 4\<rparr>" "\<lparr>rn = 1, rd = 2\<rparr>"
        "\<lparr>rn = 2, rd = 3\<rparr>" "\<lparr>rn = - 4, rd = 3\<rparr>" "\<lparr>rn = - 1, rd = 2\<rparr>"
        "\<lparr>rn = 7, rd = 1\<rparr>"]
    by simp
qed

section \<open>The solver on concrete inputs\<close>

text \<open>
  C2. With n = 4, k = 3 and the shares (1, 10, "6"), (2, 10, "15"), (3, 10, "28"),
  (4, 10, "999") the solver returns the secret "1", the consistent indices [1, 2, 3] and
  the inconsistent indices [4].
\<close>

theorem solveShamirLike_scenario:
  "solveShamirLike \<lparr>keys_n = 4, keys_k = 3,
      props = [(1, 10, ''6''), (2, 10, ''15''), (3, 10, ''28''), (4, 10, ''999'')]\<rparr>
   = Some (Inr \<lparr>res_k = 3, res_degree = 2, res_secretF0 = ''1'',
                consistentShareIndices = [1, 2, 3], inconsistentShareIndices = [4]\<rparr>)"
  by code_simp

text \<open>
  C1, where the code departs from it. The two shares (1, 0) and (3, 1) lie on the line
  y = (x - 1) / 2, whose value at 0 is - 1/2: the only 2-subset is discarded, \<open>best\<close> keeps
  its initial value without \<open>agrees\<close>, and the last loop fails with a TypeError when it
  reads \<^verbatim>\<open>best.agrees[0]\<close>.
\<close>

theorem solveShamirLike_no_candidate:
  "solveShamirLike \<lparr>keys_n = 2, keys_k = 2, props = [(1, 10, ''0''), (3, 10, ''1'')]\<rparr>
   = Some (Inl TypeError)"
  by code_simp

section \<open>Lagrange interpolator: the two loops\<close>

lemma representsE:
  assumes "represents res v"
  obtains r where "res = Inr r" "canonical r" "valueOf r = v"
  using assms by (auto simp: represents_def)

lemma valueOf_zero_iff: "canonical r \<Longrightarrow> (valueOf r = 0) = (rn r = 0)"
  by (simp add: valueOf_def canonical_def)

lemma lagrangeInner_result:
  assumes "canonical (fst nd)" "canonical (snd nd)"
  shows "\<exists>num den. lagrangeInner points x0 xi i js nd = Inr (num, den)
      \<and> canonical num \<and> canonical den
      \<and> valueOf num = valueOf (fst nd) *
            (\<Prod>j\<leftarrow>filter (\<lambda>j. j \<noteq> i) js. of_int (x0 - px (points ! j)))
      \<and> valueOf den = valueOf (snd nd) *
            (\<Prod>j\<leftarrow>filter (\<lambda>j. j \<noteq> i) js. of_int (xi - px (points ! j)))"
  using assms
proof (induction js arbitrary: nd)
  case Nil
  then show ?case by (cases nd) simp
next
  case (Cons j js)
  show ?case
  proof (cases "j = i")
    case True
    with Cons show ?thesis by simp
  next
    case False
    obtain a where a: "Rational_new (x0 - px (points ! j)) 1 = Inr a" "canonical a"
        "valueOf a = of_int (x0 - px (points ! j))"
      using Rational_new_represents [of 1 "x0 - px (points ! j)"] by (auto elim: representsE)
    obtain num where num: "Rational_mul (fst nd) a = Inr num" "canonical num"
        "valueOf num = valueOf (fst nd) * valueOf a"
      using Rational_mul_represents [OF Cons.prems(1) a(2)] by (auto elim: representsE)
    obtain b where b: "Rational_new (xi - px (points ! j)) 1 = Inr b" "canonical b"
        "valueOf b = of_int (xi - px (points ! j))"
      using Rational_new_represents [of 1 "xi - px (points ! j)"] by (auto elim: representsE)
    obtain den where den: "Rational_mul (snd nd) b = Inr den" "canonical den"
        "valueOf den = valueOf (snd nd) * valueOf b"
      using Rational_mul_represents [OF Cons.prems(2) b(2)] by (auto elim: representsE)
    have step: "lagrangeInner points x0 xi i (j # js) nd
        = lagrangeInner points x0 xi i js (num, den)"
      using False a(1) num(1) b(1) den(1) by simp
    from Cons.IH [of "(num, den)"] num(2) den(2)
    obtain num' den' where r: "lagrangeInner points x0 xi i js (num, den) = Inr (num', den')"
        "canonical num'" "canonical den'"
        "valueOf num' = valueOf num *
            (\<Prod>j\<leftarrow>filter (\<lambda>j. j \<noteq> i) js. of_int (x0 - px (points ! j)))"
        "valueOf den' = valueOf den *
            (\<Prod>j\<leftarrow>filter (\<lambda>j. j \<noteq> i) js. of_int (xi - px (points ! j)))"
      by auto
    show ?thesis
      using False step r a(3) num(3) b(3) den(3) by (simp add: mult.assoc)
  qed
qed

lemma lagrangeOuter_step:
  assumes "canonical acc"
  shows "(basisDen points i = 0 \<longrightarrow>
            lagrangeOuter points x0 (i # is) acc = Inl DivisionByZero)
       \<and> (basisDen points i \<noteq> 0 \<longrightarrow>
            (\<exists>acc'. lagrangeOuter points x0 (i # is) acc = lagrangeOuter points x0 is acc'
               \<and> canonical acc'
               \<and> valueOf acc' = valueOf acc +
                    of_int (py (points ! i)) * (basisNum points x0 i / basisDen points i)))"
proof -
  obtain one where one: "Rational_new 1 1 = Inr one" "canonical one" "valueOf one = 1"
    using Rational_new_represents [of 1 1] by (auto elim: representsE)
  obtain num den where nd:
      "lagrangeInner points x0 (px (points ! i)) i [0..<length points] (one, one)
         = Inr (num, den)"
      "canonical num" "canonical den"
      "valueOf num = basisNum points x0 i" "valueOf den = basisDen points i"
    using lagrangeInner_result [of "(one, one)" points x0 "px (points ! i)" i "[0..<length points]"]
      one by (auto simp: basisNum_def basisDen_def)
  show ?thesis
  proof (cases "basisDen points i = 0")
    case True
    then have "rn den = 0" using nd(5) valueOf_zero_iff [OF nd(3)] by simp
    then show ?thesis using True one(1) nd(1) by (simp add: Rational_div_def)
  next
    case False
    then have nz: "rn den \<noteq> 0" using nd(5) valueOf_zero_iff [OF nd(3)] by simp
    obtain li where li: "Rational_div num den = Inr li" "canonical li"
        "valueOf li = valueOf num / valueOf den"
      using Rational_div_represents [OF nd(2,3) nz] by (auto elim: representsE)
    obtain ry where ry: "Rational_fromBigInt (py (points ! i)) = Inr ry" "canonical ry"
        "valueOf ry = of_int (py (points ! i))"
      using Rational_fromBigInt_represents [of "py (points ! i)"] by (auto elim: representsE)
    obtain t where t: "Rational_mul ry li = Inr t" "canonical t"
        "valueOf t = valueOf ry * valueOf li"
      using Rational_mul_represents [OF ry(2) li(2)] by (auto elim: representsE)
    obtain acc' where acc': "Rational_add acc t = Inr acc'" "canonical acc'"
        "valueOf acc' = valueOf acc + valueOf t"
      using Rational_add_represents [OF assms t(2)] by (auto elim: representsE)
    have "lagrangeOuter points x0 (i # is) acc = lagrangeOuter points x0 is acc'"
      using one(1) nd(1) li(1) ry(1) t(1) acc'(1) by simp
    then show ?thesis
      using False acc'(2,3) t(3) ry(3) li(3) nd(4,5) by auto
  qed
qed

lemma lagrangeOuter_result:
  assumes "canonical acc" "\<forall>i\<in>set is. basisDen points i \<noteq> 0"
  shows "represents (lagrangeOuter points x0 is acc)
           (valueOf acc +
              (\<Sum>i\<leftarrow>is. of_int (py (points ! i)) * (basisNum points x0 i / basisDen points i)))"
  using assms
proof (induction "is" arbitrary: acc)
  case Nil
  then show ?case by (simp add: represents_def)
next
  case (Cons i "is")
  from Cons.prems(2) have nz: "basisDen points i \<noteq> 0" by simp
  from lagrangeOuter_step [OF Cons.prems(1), of points i x0 "is"] nz
  obtain acc' where s: "lagrangeOuter points x0 (i # is) acc = lagrangeOuter points x0 is acc'"
      "canonical acc'"
      "valueOf acc' = valueOf acc +
          of_int (py (points ! i)) * (basisNum points x0 i / basisDen points i)"
    by auto
  from Cons.IH [OF s(2)] Cons.prems(2)
  have "represents (lagrangeOuter points x0 is acc')
     (valueOf acc' +
        (\<Sum>i\<leftarrow>is. of_int (py (points ! i)) * (basisNum points x0 i / basisDen points i)))"
    by simp
  then show ?case
    by (simp only: s(1) s(3) list.map sum_list.Cons add.assoc)
qed

lemma lagrangeOuter_DivisionByZero:
  assumes "canonical acc" "\<exists>i\<in>set is. basisDen points i = 0"
  shows "lagrangeOuter points x0 is acc = Inl DivisionByZero"
  using assms
proof (induction "is" arbitrary: acc)
  case Nil
  then show ?case by simp
next
  case (Cons i "is")
  show ?case
  proof (cases "basisDen points i = 0")
    case True
    then show ?thesis using lagrangeOuter_step [OF Cons.prems(1), of points i x0 "is"] by blast
  next
    case False
    from lagrangeOuter_step [OF Cons.prems(1), of points i x0 "is"] False
    obtain acc' where s: "lagrangeOuter points x0 (i # is) acc = lagrangeOuter points x0 is acc'"
        "canonical acc'"
      by auto
    from Cons.prems(2) False have "\<exists>i\<in>set is. basisDen points i = 0" by auto
    from Cons.IH [OF s(2) this] show ?thesis by (simp only: s(1))
  qed
qed

lemma basisDen_zero_iff:
  "i < length points \<Longrightarrow>
   (basisDen points i = 0) =
     (\<exists>j<length points. j \<noteq> i \<and> px (points ! j) = px (points ! i))"
proof -
  assume i: "i < length points"
  have "(basisDen points i = 0) =
      (\<exists>j\<in>set (filter (\<lambda>j. j \<noteq> i) [0..<length points]).
         (of_int (px (points ! i) - px (points ! j)) :: rat) = 0)"
    unfolding basisDen_def prod_list_zero_iff by auto
  also have "\<dots> = (\<exists>j<length points. j \<noteq> i \<and> px (points ! j) = px (points ! i))"
    by auto
  finally show ?thesis .
qed

lemma distinct_basisDen:
  "distinct (map px points) = (\<forall>i<length points. basisDen points i \<noteq> 0)"
proof -
  have "distinct (map px points) =
      (\<forall>i<length points. \<forall>j<length points. i \<noteq> j \<longrightarrow> px (points ! i) \<noteq> px (points ! j))"
    by (simp add: distinct_conv_nth)
  also have "\<dots> = (\<forall>i<length points. basisDen points i \<noteq> 0)"
    by (auto simp: basisDen_zero_iff)
  finally show ?thesis .
qed

lemma basis_quotient:
  assumes "i < length points"
  shows "basisNum points x0 i / basisDen points i =
     (\<Prod>j\<in>{..<length points} - {i}.
        (of_int x0 - of_int (px (points ! j))) /
        (of_int (px (points ! i)) - of_int (px (points ! j))))"
proof -
  have d: "distinct (filter (\<lambda>j. j \<noteq> i) [0..<length points])" by simp
  have s: "set (filter (\<lambda>j. j \<noteq> i) [0..<length points]) = {..<length points} - {i}"
    by auto
  have n: "basisNum points x0 i = (\<Prod>j\<in>{..<length points} - {i}. of_int (x0 - px (points ! j)))"
    unfolding basisNum_def using prod.distinct_set_conv_list [OF d, symmetric] s by simp
  have dn: "basisDen points i =
      (\<Prod>j\<in>{..<length points} - {i}. of_int (px (points ! i) - px (points ! j)))"
    unfolding basisDen_def using prod.distinct_set_conv_list [OF d, symmetric] s by simp
  show ?thesis by (simp add: n dn prod_dividef)
qed

lemma lagrangeEvalAt_result:
  assumes "distinct (map px points)"
  shows "represents (lagrangeEvalAt points x0) (lagrangeFormula points (of_int x0))"
proof -
  obtain z where z: "Rational_new 0 1 = Inr z" "canonical z" "valueOf z = 0"
    using Rational_new_represents [of 1 0] by (auto elim: representsE)
  have nz: "\<forall>i\<in>set [0..<length points]. basisDen points i \<noteq> 0"
    using assms by (simp add: distinct_basisDen)
  have "(\<Sum>i\<leftarrow>[0..<length points].
          of_int (py (points ! i)) * (basisNum points x0 i / basisDen points i))
        = (\<Sum>i<length points.
          of_int (py (points ! i)) * (basisNum points x0 i / basisDen points i))"
    by (simp add: interv_sum_list_conv_sum_set_nat atLeast0LessThan)
  also have "\<dots> = lagrangeFormula points (of_int x0)"
    unfolding lagrangeFormula_def by (rule sum.cong) (simp_all add: basis_quotient)
  finally show ?thesis
    using lagrangeOuter_result [OF z(2) nz, of x0] z(1,3) by (simp add: lagrangeEvalAt_def)
qed

lemma lagrangeEvalAt_DivisionByZero:
  assumes "\<not> distinct (map px points)"
  shows "lagrangeEvalAt points x0 = Inl DivisionByZero"
proof -
  obtain z where z: "Rational_new 0 1 = Inr z" "canonical z"
    using Rational_new_represents [of 1 0] by (auto elim: representsE)
  have "\<exists>i\<in>set [0..<length points]. basisDen points i = 0"
    using assms by (auto simp: distinct_basisDen)
  from lagrangeOuter_DivisionByZero [OF z(2) this] show ?thesis
    by (simp add: lagrangeEvalAt_def z(1))
qed

text \<open>
  C8. Division fails with \<open>DivisionByZero\<close> exactly when the numerator of the divisor is
  zero, and succeeds otherwise on a dividend in canonical form. When two of the points
  have the same x-coordinate, the evaluator fails with \<open>DivisionByZero\<close>.
\<close>

theorem Rational_div_DivisionByZero:
  "(Rational_div a b = Inl DivisionByZero) = (rn b = 0)
   \<and> (canonical a \<and> rn b \<noteq> 0 \<longrightarrow> (\<exists>r. Rational_div a b = Inr r))
   \<and> (\<not> distinct (map px points) \<longrightarrow> lagrangeEvalAt points x0 = Inl DivisionByZero)"
proof -
  have 1: "(Rational_div a b = Inl DivisionByZero) = (rn b = 0)"
    by (simp add: Rational_div_def Rational_new_cases)
  have 2: "canonical a \<and> rn b \<noteq> 0 \<longrightarrow> (\<exists>r. Rational_div a b = Inr r)"
    by (auto simp: Rational_div_def Rational_new_cases canonical_def)
  show ?thesis using 1 2 lagrangeEvalAt_DivisionByZero by blast
qed

theorem Rational_div_DivisionByZero_witness:
  "Rational_div \<lparr>rn = 1, rd = 2\<rparr> \<lparr>rn = 0, rd = 1\<rparr> = Inl DivisionByZero
   \<and> canonical \<lparr>rn = 1, rd = 2\<rparr> \<and> rn \<lparr>rn = 3, rd = 4\<rparr> \<noteq> 0
   \<and> (\<exists>r. Rational_div \<lparr>rn = 1, rd = 2\<rparr> \<lparr>rn = 3, rd = 4\<rparr> = Inr r)
   \<and> \<not> distinct (map px [\<lparr>px = 1, py = 5\<rparr>, \<lparr>px = 2, py = 6\<rparr>, \<lparr>px = 1, py = 7\<rparr>])
   \<and> lagrangeEvalAt [\<lparr>px = 1, py = 5\<rparr>, \<lparr>px = 2, py = 6\<rparr>, \<lparr>px = 1, py = 7\<rparr>] 0
       = Inl DivisionByZero"
proof -
  have c: "canonical \<lparr>rn = 1, rd = 2\<rparr>" by (simp add: canonical_def)
  have d: "\<not> distinct (map px [\<lparr>px = 1, py = 5\<rparr>, \<lparr>px = 2, py = 6\<rparr>, \<lparr>px = 1, py = 7\<rparr>])"
    by simp
  show ?thesis
    using c d
      Rational_div_DivisionByZero [of "\<lparr>rn = 1, rd = 2\<rparr>" "\<lparr>rn = 0, rd = 1\<rparr>"
        "[\<lparr>px = 1, py = 5\<rparr>, \<lparr>px = 2, py = 6\<rparr>, \<lparr>px = 1, py = 7\<rparr>]" 0]
      Rational_div_DivisionByZero [of "\<lparr>rn = 1, rd = 2\<rparr>" "\<lparr>rn = 3, rd = 4\<rparr>"
        "[\<lparr>px = 1, py = 5\<rparr>, \<lparr>px = 2, py = 6\<rparr>, \<lparr>px = 1, py = 7\<rparr>]" 0]
    by simp
qed

section \<open>Polynomials of bounded degree\<close>

lemma poly_vanishes:
  fixes c :: "nat \<Rightarrow> rat"
  assumes "distinct xs" "length xs = m" "\<forall>x\<in>set xs. (\<Sum>i<m. c i * x ^ i) = 0"
  shows "(\<Sum>i<m. c i * z ^ i) = 0"
  using assms
proof (induction m arbitrary: c xs z)
  case 0
  then show ?case by simp
next
  case (Suc n)
  then obtain a xs' where xs: "xs = a # xs'" by (cases xs) auto
  have root: "(\<Sum>i\<le>n. c i * a ^ i) = 0"
    using Suc.prems(3) xs by (simp add: lessThan_Suc_atMost)
  obtain b where b: "\<And>w. (\<Sum>i\<le>n. c i * w ^ i) = (w - a) * (\<Sum>i<n. b i * w ^ i)"
    using polyfun_linear_factor_root [OF root] by blast
  have "\<forall>x\<in>set xs'. (\<Sum>i<n. b i * x ^ i) = 0"
  proof
    fix x assume x: "x \<in> set xs'"
    then have "x \<noteq> a" using Suc.prems(1) xs by auto
    moreover have "(\<Sum>i\<le>n. c i * x ^ i) = 0"
      using Suc.prems(3) xs x by (simp add: lessThan_Suc_atMost)
    ultimately show "(\<Sum>i<n. b i * x ^ i) = 0" using b [of x] by simp
  qed
  moreover have "distinct xs'" "length xs' = n" using Suc.prems(1,2) xs by auto
  ultimately have "(\<Sum>i<n. b i * z ^ i) = 0" using Suc.IH by blast
  then show ?case using b [of z] by (simp add: lessThan_Suc_atMost)
qed

lemma polyEval_unique:
  assumes "distinct (map px points)" "passesThrough c (length points) points"
    "passesThrough c' (length points) points"
  shows "polyEval c (length points) z = polyEval c' (length points) z"
proof -
  define m where "m = length points"
  define xs :: "rat list" where "xs = map (\<lambda>p. of_int (px p)) points"
  have "xs = map of_int (map px points)" by (simp add: xs_def)
  then have d: "distinct xs" using assms(1) by (simp add: distinct_map inj_on_def)
  have l: "length xs = m" by (simp add: xs_def m_def)
  have "\<forall>x\<in>set xs. (\<Sum>i<m. (c i - c' i) * x ^ i) = 0"
    using assms(2,3)
    by (auto simp: xs_def m_def passesThrough_def polyEval_def list_all_iff
        left_diff_distrib sum_subtractf)
  from poly_vanishes [OF d l this, of z] show ?thesis
    by (simp add: polyEval_def m_def left_diff_distrib sum_subtractf)
qed

lemma polyFun_const: "polyFun (Suc 0) (\<lambda>z. a)"
  unfolding polyFun_def polyEval_def by (rule exI [of _ "\<lambda>i. a"]) simp

lemma polyFun_zero: "polyFun m (\<lambda>z. 0)"
  unfolding polyFun_def polyEval_def by (rule exI [of _ "\<lambda>i. 0"]) simp

lemma polyFun_scale: "polyFun m f \<Longrightarrow> polyFun m (\<lambda>z. a * f z)"
proof -
  assume "polyFun m f"
  then obtain c where c: "\<And>z. f z = (\<Sum>i<m. c i * z ^ i)"
    by (auto simp: polyFun_def polyEval_def)
  show ?thesis
    unfolding polyFun_def polyEval_def
    by (rule exI [of _ "\<lambda>i. a * c i"]) (simp add: c sum_distrib_left mult.assoc)
qed

lemma polyFun_add: "polyFun m f \<Longrightarrow> polyFun m g \<Longrightarrow> polyFun m (\<lambda>z. f z + g z)"
proof -
  assume "polyFun m f" "polyFun m g"
  then obtain c d where c: "\<And>z. f z = (\<Sum>i<m. c i * z ^ i)"
      and d: "\<And>z. g z = (\<Sum>i<m. d i * z ^ i)"
    by (auto simp: polyFun_def polyEval_def)
  show ?thesis
    unfolding polyFun_def polyEval_def
    by (rule exI [of _ "\<lambda>i. c i + d i"]) (simp add: c d sum.distrib distrib_right)
qed

lemma polyFun_linear: "polyFun m f \<Longrightarrow> polyFun (Suc m) (\<lambda>z. (z - a) * f z)"
proof -
  assume "polyFun m f"
  then obtain c where c: "\<And>z. f z = (\<Sum>i<m. c i * z ^ i)"
    by (auto simp: polyFun_def polyEval_def)
  define c' where "c' i = (if i = 0 then 0 else c (i - 1)) - a * (if i < m then c i else 0)" for i
  have "(\<Sum>i<Suc m. c' i * z ^ i) = (z - a) * f z" for z
  proof -
    have "(\<Sum>i<Suc m. c' i * z ^ i) =
        (\<Sum>i<Suc m. (if i = 0 then 0 else c (i - 1)) * z ^ i)
        - (\<Sum>i<Suc m. a * (if i < m then c i else 0) * z ^ i)"
      by (simp only: c'_def left_diff_distrib sum_subtractf)
    also have "(\<Sum>i<Suc m. (if i = 0 then 0 else c (i - 1)) * z ^ i) = (\<Sum>i<m. c i * z ^ Suc i)"
      by (subst sum.lessThan_Suc_shift) simp
    also have "(\<Sum>i<Suc m. a * (if i < m then c i else 0) * z ^ i) = (\<Sum>i<m. a * c i * z ^ i)"
      by simp
    also have "(\<Sum>i<m. c i * z ^ Suc i) - (\<Sum>i<m. a * c i * z ^ i) = (z - a) * f z"
    proof -
      have "(z - a) * f z = (\<Sum>i<m. (z - a) * (c i * z ^ i))"
        by (simp only: c sum_distrib_left)
      also have "\<dots> = (\<Sum>i<m. c i * z ^ Suc i - a * c i * z ^ i)"
        by (rule sum.cong) (simp_all add: algebra_simps)
      also have "\<dots> = (\<Sum>i<m. c i * z ^ Suc i) - (\<Sum>i<m. a * c i * z ^ i)"
        by (rule sum_subtractf)
      finally show ?thesis by simp
    qed
    finally show ?thesis .
  qed
  then show ?thesis
    unfolding polyFun_def polyEval_def by (intro exI [of _ c']) simp
qed

lemma polyFun_sum:
  "finite S \<Longrightarrow> (\<And>i. i \<in> S \<Longrightarrow> polyFun m (f i)) \<Longrightarrow> polyFun m (\<lambda>z. \<Sum>i\<in>S. f i z)"
proof (induction S rule: finite_induct)
  case empty
  then show ?case by (simp add: polyFun_zero)
next
  case (insert x S)
  then show ?case by (simp add: polyFun_add)
qed

lemma polyFun_prod:
  "finite S \<Longrightarrow> polyFun (Suc (card S)) (\<lambda>z. \<Prod>j\<in>S. (z - a j) / b j)"
proof (induction S rule: finite_induct)
  case empty
  show ?case using polyFun_const [of 1] by simp
next
  case (insert x S)
  have "polyFun (Suc (Suc (card S))) (\<lambda>z. (z - a x) * (1 / b x * (\<Prod>j\<in>S. (z - a j) / b j)))"
    by (intro polyFun_linear polyFun_scale insert.IH)
  then show ?case using insert.hyps by (simp add: mult_ac)
qed

lemma polyFun_lagrangeFormula: "polyFun (length points) (lagrangeFormula points)"
proof -
  have "polyFun (length points)
      (\<lambda>z. of_int (py (points ! i)) *
        (\<Prod>j\<in>{..<length points} - {i}.
           (z - of_int (px (points ! j))) /
           (of_int (px (points ! i)) - of_int (px (points ! j)))))"
    if "i \<in> {..<length points}" for i
  proof -
    from that have "Suc (card ({..<length points} - {i})) = length points" by simp
    then show ?thesis
      using polyFun_scale [OF polyFun_prod [of "{..<length points} - {i}"
          "\<lambda>j. of_int (px (points ! j))"
          "\<lambda>j. of_int (px (points ! i)) - of_int (px (points ! j))"]]
      by simp
  qed
  then have "polyFun (length points)
      (\<lambda>z. \<Sum>i\<in>{..<length points}. of_int (py (points ! i)) *
        (\<Prod>j\<in>{..<length points} - {i}.
           (z - of_int (px (points ! j))) /
           (of_int (px (points ! i)) - of_int (px (points ! j)))))"
    by (intro polyFun_sum) auto
  then show ?thesis
    unfolding lagrangeFormula_def .
qed

lemma lagrangeFormula_node:
  assumes "distinct (map px points)" "m < length points"
  shows "lagrangeFormula points (of_int (px (points ! m))) = of_int (py (points ! m))"
proof -
  let ?k = "length points"
  let ?x = "\<lambda>j. (of_int (px (points ! j)) :: rat)"
  have ne: "?x i \<noteq> ?x j" if "i < ?k" "j < ?k" "i \<noteq> j" for i j
    using assms(1) that by (simp add: distinct_conv_nth)
  have t: "(\<Prod>j\<in>{..<?k} - {i}. (?x m - ?x j) / (?x i - ?x j)) = (if i = m then 1 else 0)"
    if i: "i < ?k" for i
  proof (cases "i = m")
    case True
    have "(\<Prod>j\<in>{..<?k} - {i}. (?x m - ?x j) / (?x i - ?x j)) = (\<Prod>j\<in>{..<?k} - {i}. 1)"
      by (rule prod.cong) (use True ne i in auto)
    then show ?thesis using True by simp
  next
    case False
    have "m \<in> {..<?k} - {i}" using False assms(2) by simp
    moreover have "(?x m - ?x m) / (?x i - ?x m) = 0" by simp
    ultimately have "(\<Prod>j\<in>{..<?k} - {i}. (?x m - ?x j) / (?x i - ?x j)) = 0"
      by (intro prod_zero) auto
    then show ?thesis using False by simp
  qed
  have "lagrangeFormula points (?x m) =
      (\<Sum>i<?k. of_int (py (points ! i)) * (if i = m then 1 else 0))"
    unfolding lagrangeFormula_def by (rule sum.cong) (simp_all add: t)
  also have "\<dots> = (\<Sum>i<?k. if i = m then of_int (py (points ! i)) else 0)"
    by (rule sum.cong) simp_all
  also have "\<dots> = of_int (py (points ! m))"
    using assms(2) by (simp add: sum.delta)
  finally show ?thesis .
qed

lemma lagrangeFormula_passes:
  assumes "distinct (map px points)"
  shows "\<exists>c. passesThrough c (length points) points
             \<and> (\<forall>z. lagrangeFormula points z = polyEval c (length points) z)"
proof -
  obtain c where c: "\<And>z. lagrangeFormula points z = polyEval c (length points) z"
    using polyFun_lagrangeFormula [of points] by (auto simp: polyFun_def)
  have "passesThrough c (length points) points"
    unfolding passesThrough_def list_all_length
    using lagrangeFormula_node [OF assms] c by simp
  with c show ?thesis by blast
qed

text \<open>
  C3. For points with pairwise distinct x-coordinates the evaluator returns, in canonical
  form, the value of the Lagrange sum at \<open>x0\<close>; this is the value at \<open>x0\<close> of a polynomial
  of degree below \<open>k\<close> through the \<open>k\<close> points, and of every such polynomial.
\<close>

theorem lagrangeEvalAt_correct:
  assumes "distinct (map px points)"
  shows "\<exists>r. lagrangeEvalAt points x0 = Inr r \<and> canonical r
      \<and> valueOf r = lagrangeFormula points (of_int x0)
      \<and> (\<exists>c. passesThrough c (length points) points
             \<and> polyEval c (length points) (of_int x0) = valueOf r)
      \<and> (\<forall>c. passesThrough c (length points) points
             \<longrightarrow> polyEval c (length points) (of_int x0) = valueOf r)"
proof -
  obtain r where r: "lagrangeEvalAt points x0 = Inr r" "canonical r"
      "valueOf r = lagrangeFormula points (of_int x0)"
    using lagrangeEvalAt_result [OF assms, of x0] by (auto elim: representsE)
  obtain c where c: "passesThrough c (length points) points"
      "\<And>z. lagrangeFormula points z = polyEval c (length points) z"
    using lagrangeFormula_passes [OF assms] by blast
  have u: "polyEval c' (length points) (of_int x0) = valueOf r"
    if "passesThrough c' (length points) points" for c'
    using polyEval_unique [OF assms that c(1)] c(2) r(3) by simp
  show ?thesis using r c u by auto
qed

theorem lagrangeEvalAt_correct_witness:
  "distinct (map px [\<lparr>px = 1, py = 6\<rparr>, \<lparr>px = 2, py = 15\<rparr>, \<lparr>px = 3, py = 28\<rparr>])
   \<and> lagrangeEvalAt [\<lparr>px = 1, py = 6\<rparr>, \<lparr>px = 2, py = 15\<rparr>, \<lparr>px = 3, py = 28\<rparr>] 0
       = Inr \<lparr>rn = 1, rd = 1\<rparr>
   \<and> lagrangeFormula [\<lparr>px = 1, py = 6\<rparr>, \<lparr>px = 2, py = 15\<rparr>, \<lparr>px = 3, py = 28\<rparr>] 0 = 1"
proof -
  have d: "distinct (map px [\<lparr>px = 1, py = 6\<rparr>, \<lparr>px = 2, py = 15\<rparr>, \<lparr>px = 3, py = 28\<rparr>])"
    by simp
  have e: "lagrangeEvalAt [\<lparr>px = 1, py = 6\<rparr>, \<lparr>px = 2, py = 15\<rparr>, \<lparr>px = 3, py = 28\<rparr>] 0
      = Inr \<lparr>rn = 1, rd = 1\<rparr>"
    by code_simp
  show ?thesis
    using d e lagrangeEvalAt_correct [OF d, of 0] by (auto simp: valueOf_def)
qed

section \<open>Subset combinator: one step\<close>

lemma scan_None:
  "(scan n k idx m = None) = (\<forall>i<m. int (idx ! i) = int i + int n - int k)"
proof (induction m)
  case 0
  then show ?case by simp
next
  case (Suc m)
  then show ?case by (auto simp: less_Suc_eq)
qed

lemma scan_Some:
  "scan n k idx m = Some i \<Longrightarrow>
     i < m \<and> int (idx ! i) \<noteq> int i + int n - int k
     \<and> (\<forall>j. i < j \<and> j < m \<longrightarrow> int (idx ! j) = int j + int n - int k)"
proof (induction m)
  case 0
  then show ?case by simp
next
  case (Suc m)
  show ?case
  proof (cases "int (idx ! m) = int m + int n - int k")
    case True
    with Suc show ?thesis by (auto simp: less_Suc_eq)
  next
    case False
    with Suc.prems show ?thesis by auto
  qed
qed

lemma reset_length:
  "length (fold (\<lambda>j a. a[j := g j a]) js a) = length a"
  by (induction js arbitrary: a) auto

lemma reset_nth:
  assumes "0 < lo" "hi \<le> length a"
  shows "fold (\<lambda>j a. a[j := a ! (j - 1) + 1]) [lo..<hi] a ! p =
     (if lo \<le> p \<and> p < hi then a ! (lo - 1) + 1 + (p - lo) else a ! p)"
  using assms(2)
proof (induction hi arbitrary: p)
  case 0
  then show ?case by simp
next
  case (Suc hi)
  let ?f = "\<lambda>j a. a[j := a ! (j - 1) + 1]"
  show ?case
  proof (cases "lo \<le> hi")
    case False
    then show ?thesis by simp
  next
    case True
    define b where "b = fold ?f [lo..<hi] a"
    have lb: "length b = length a" by (simp add: b_def reset_length)
    have ih: "b ! q = (if lo \<le> q \<and> q < hi then a ! (lo - 1) + 1 + (q - lo) else a ! q)" for q
      unfolding b_def using Suc by simp
    have f: "fold ?f [lo..<Suc hi] a = b[hi := b ! (hi - 1) + 1]"
      using True by (simp add: b_def)
    have prev: "b ! (hi - 1) + 1 = a ! (lo - 1) + 1 + (hi - lo)"
    proof (cases "lo = hi")
      case True
      then have "\<not> lo \<le> hi - 1" using assms(1) by simp
      then show ?thesis using True ih [of "hi - 1"] by simp
    next
      case False
      with \<open>lo \<le> hi\<close> have "lo \<le> hi - 1" "hi - 1 < hi" using assms(1) by auto
      then show ?thesis using ih [of "hi - 1"] by simp
    qed
    show ?thesis
    proof (cases "p = hi")
      case True
      then show ?thesis using f prev lb Suc.prems \<open>lo \<le> hi\<close> by simp
    next
      case False
      then show ?thesis using f ih [of p] by auto
    qed
  qed
qed

lemma advance_length: "length (advance idx i k) = length idx"
  by (simp add: advance_def reset_length)

lemma advance_nth:
  assumes "i < k" "length idx = k"
  shows "advance idx i k ! p = (if i \<le> p \<and> p < k then idx ! i + 1 + (p - i) else idx ! p)"
proof -
  have "advance idx i k ! p =
      (if Suc i \<le> p \<and> p < k then (idx[i := idx ! i + 1]) ! i + 1 + (p - Suc i)
       else (idx[i := idx ! i + 1]) ! p)"
    unfolding advance_def using reset_nth [of "Suc i" k "idx[i := idx ! i + 1]" p] assms
    by simp
  then show ?thesis using assms by (auto simp: nth_list_update)
qed

lemma list_less_nth:
  fixes x y :: "nat list"
  assumes "length x = length y"
  shows "(x < y) = (\<exists>p<length x. (\<forall>q<p. x ! q = y ! q) \<and> x ! p < y ! p)"
proof -
  have t: "(take p x = take p y) = (\<forall>q<p. x ! q = y ! q)" if "p < length x" for p
  proof
    assume e: "take p x = take p y"
    show "\<forall>q<p. x ! q = y ! q"
    proof (intro allI impI)
      fix q assume "q < p"
      then show "x ! q = y ! q" using e by (metis nth_take)
    qed
  next
    assume "\<forall>q<p. x ! q = y ! q"
    then show "take p x = take p y"
      using that assms by (intro nth_take_lemma) auto
  qed
  have "(x < y) = (\<exists>p<length x. take p x = take p y \<and> x ! p < y ! p)"
    using assms by (auto simp: list_less_def lexord_take_index_conv)
  then show ?thesis using t by auto
qed

lemma sorted_gap:
  fixes t :: "nat list"
  assumes "sorted_wrt (<) t" "j < length t"
  shows "i \<le> j \<Longrightarrow> t ! i + (j - i) \<le> t ! j"
proof (induction "j - i" arbitrary: i)
  case 0
  then show ?case by simp
next
  case (Suc d)
  then have i: "i < j" "d = j - Suc i" by auto
  then have "t ! Suc i + (j - Suc i) \<le> t ! j" using Suc.hyps(1) [of "Suc i"] by simp
  moreover have "t ! i < t ! Suc i"
    using assms i by (simp add: sorted_wrt_iff_nth_less)
  ultimately show ?case using i by simp
qed

lemma isCombination_nth:
  "isCombination n k t =
     (length t = k \<and> (\<forall>p q. p < q \<and> q < k \<longrightarrow> t ! p < t ! q) \<and> (\<forall>p<k. t ! p < n))"
  by (auto simp: isCombination_def sorted_wrt_iff_nth_less list_all_length)

lemma isCombination_upper:
  assumes "isCombination n k t" "p < k"
  shows "int (t ! p) \<le> int p + int n - int k"
proof -
  have s: "sorted_wrt (<) t" and l: "length t = k" using assms(1) by (simp_all add: isCombination_def)
  have "t ! p + (k - 1 - p) \<le> t ! (k - 1)"
    using sorted_gap [OF s, of "k - 1" p] assms(2) l by simp
  moreover have "t ! (k - 1) < n" using assms by (simp add: isCombination_nth)
  ultimately show ?thesis using assms(2) by linarith
qed

lemma isCombination_lower:
  assumes "isCombination n k t" "p < k"
  shows "p \<le> t ! p"
proof -
  have s: "sorted_wrt (<) t" and l: "length t = k" using assms(1) by (simp_all add: isCombination_def)
  show ?thesis using sorted_gap [OF s, of p 0] assms(2) l by simp
qed

lemma comb_next_None:
  assumes "isCombination n k idx" "comb_next n k idx = None" "isCombination n k t"
  shows "t \<le> idx"
proof (rule ccontr)
  assume "\<not> t \<le> idx"
  then have "idx < t" by simp
  moreover have l: "length idx = length t" using assms(1,3) by (simp add: isCombination_def)
  ultimately obtain p where p: "p < length idx" "idx ! p < t ! p"
    by (auto simp: list_less_nth)
  then have pk: "p < k" using assms(1) by (simp add: isCombination_def)
  have "scan n k idx k = None" using assms(2) by (simp add: comb_next_def split: option.splits)
  then have "int (idx ! p) = int p + int n - int k" using pk by (simp add: scan_None)
  then show False using isCombination_upper [OF assms(3) pk] p(2) by simp
qed

lemma comb_next_Some:
  assumes c: "isCombination n k idx" and s: "comb_next n k idx = Some idx'"
  shows "isCombination n k idx'" and "idx < idx'"
    and "isCombination n k t \<Longrightarrow> idx < t \<Longrightarrow> idx' \<le> t"
proof -
  have l: "length idx = k" using c by (simp add: isCombination_def)
  obtain i where i: "scan n k idx k = Some i" "idx' = advance idx i k"
    using s by (auto simp: comb_next_def split: option.splits)
  have ik: "i < k" and ne: "int (idx ! i) \<noteq> int i + int n - int k"
    and mx: "\<And>j. i < j \<Longrightarrow> j < k \<Longrightarrow> int (idx ! j) = int j + int n - int k"
    using scan_Some [OF i(1)] by auto
  have l': "length idx' = k" by (simp add: i(2) advance_length l)
  have nth: "idx' ! p = (if i \<le> p \<and> p < k then idx ! i + 1 + (p - i) else idx ! p)" for p
    unfolding i(2) by (rule advance_nth [OF ik l])
  have hi: "idx' ! p = idx ! i + 1 + (p - i)" if "i \<le> p" "p < k" for p
    using that by (simp only: nth if_True simp_thms)
  have lo: "idx' ! p = idx ! p" if "p < i" for p
    using that by (simp add: nth)
  have lt: "int (idx ! i) < int i + int n - int k"
    using isCombination_upper [OF c ik] ne by simp
  have inc: "idx ! p < idx ! q" if "p < q" "q < k" for p q
    using c that by (simp add: isCombination_nth)
  show c': "isCombination n k idx'"
    unfolding isCombination_nth
  proof (intro conjI allI impI)
    show "length idx' = k" by (rule l')
  next
    fix p q assume pq: "p < q \<and> q < k"
    show "idx' ! p < idx' ! q"
    proof (cases "i \<le> p")
      case True
      then show ?thesis using pq hi [of p] hi [of q] by linarith
    next
      case False
      then have pi: "p < i" by simp
      show ?thesis
      proof (cases "i \<le> q")
        case True
        then show ?thesis using pq pi lo [of p] hi [of q] inc [of p i] ik by linarith
      next
        case False
        then show ?thesis using pq pi lo [of p] lo [of q] inc [of p q] by simp
      qed
    qed
  next
    fix p assume pk: "p < k"
    show "idx' ! p < n"
    proof (cases "i \<le> p")
      case True
      then show ?thesis using pk lt hi [of p] by linarith
    next
      case False
      then show ?thesis using pk c lo [of p] by (simp add: isCombination_nth)
    qed
  qed
  show less: "idx < idx'"
    unfolding list_less_nth [of idx idx', OF l [unfolded l' [symmetric]]]
    using ik l hi [of i] lo by (intro exI [of _ i]) simp
  show "idx' \<le> t" if t: "isCombination n k t" and it: "idx < t"
  proof (rule ccontr)
    assume "\<not> idx' \<le> t"
    then have ti: "t < idx'" by simp
    have lt': "length t = k" using t by (simp add: isCombination_def)
    obtain p where p: "p < k" "\<And>q. q < p \<Longrightarrow> idx ! q = t ! q" "idx ! p < t ! p"
      using it l lt' by (auto simp: list_less_nth)
    obtain q where q: "q < k" "\<And>r. r < q \<Longrightarrow> t ! r = idx' ! r" "t ! q < idx' ! q"
      using ti l' lt' by (auto simp: list_less_nth)
    have up: "int (t ! p) \<le> int p + int n - int k" by (rule isCombination_upper [OF t p(1)])
    consider "q < i" | "q = i" | "i < q" by linarith
    then show False
    proof cases
      case 1
      then have a: "t ! q < idx ! q" using q(3) lo [of q] by simp
      consider "p < q" | "p = q" | "q < p" by linarith
      then show False
      proof cases
        case 1
        then have "t ! p = idx ! p" using q(2) [of p] \<open>q < i\<close> lo [of p] by simp
        then show False using p(3) by simp
      next
        case 2
        then show False using a p(3) by simp
      next
        case 3
        then show False using a p(2) [of q] by simp
      qed
    next
      case 2
      then have a: "t ! i \<le> idx ! i" using q(3) ik hi [of i] by simp
      consider "p < i" | "p = i" | "i < p" by linarith
      then show False
      proof cases
        case 1
        then have "t ! p = idx ! p" using q(2) [of p] \<open>q = i\<close> lo [of p] by simp
        then show False using p(3) by simp
      next
        case 2
        then show False using a p(3) by simp
      next
        case 3
        then show False using mx [OF 3 p(1)] up p(3) by simp
      qed
    next
      case 3
      then have "t ! i = idx ! i + 1" using q(2) [of i] ik hi [of i] by simp
      moreover have "t ! q < idx ! i + 1 + (q - i)" using q(1,3) 3 hi [of q] by simp
      moreover have "t ! i + (q - i) \<le> t ! q"
        using sorted_gap [of t q i] t q(1) 3 lt' by (simp add: isCombination_def)
      ultimately show False by simp
    qed
  qed
qed

lemma isCombination_first:
  assumes "k \<le> n"
  shows "isCombination n k [0..<k]" and "isCombination n k t \<Longrightarrow> [0..<k] \<le> t"
proof -
  show "isCombination n k [0..<k]"
    using assms by (auto simp: isCombination_nth)
  show "[0..<k] \<le> t" if t: "isCombination n k t"
  proof (rule ccontr)
    assume "\<not> [0..<k] \<le> t"
    then have "t < [0..<k]" by simp
    moreover have "length t = k" using t by (simp add: isCombination_def)
    ultimately obtain p where "p < k" "t ! p < [0..<k] ! p"
      by (auto simp: list_less_nth)
    then show False using isCombination_lower [OF t, of p] by simp
  qed
qed

section \<open>Subset combinator: the whole run\<close>

lemma finite_isCombination: "finite {t. isCombination n k t}"
proof -
  have "{t. isCombination n k t} \<subseteq> {t. set t \<subseteq> {..<n} \<and> length t = k}"
    by (auto simp: isCombination_def list_all_iff)
  then show ?thesis using finite_lists_length_eq [of "{..<n}" k] by (simp add: finite_subset)
qed

lemma comb_run_result:
  assumes "isCombination (length arr) k idx"
  shows "\<exists>L. comb_run arr k idx = Some (map (map (jsIndex arr)) (idx # L))
      \<and> sorted_wrt (<) (idx # L)
      \<and> set (idx # L) = {t. isCombination (length arr) k t \<and> idx \<le> t}"
  using assms
proof (induction "card {t. isCombination (length arr) k t \<and> idx < t}" arbitrary: idx
    rule: less_induct)
  case less
  let ?n = "length arr"
  show ?case
  proof (cases "comb_next ?n k idx")
    case None
    have "comb_run arr k idx = Some (map (map (jsIndex arr)) [idx])"
      by (subst comb_run.simps) (simp add: None)
    moreover have "set [idx] = {t. isCombination ?n k t \<and> idx \<le> t}"
      using comb_next_None [OF less.prems None] less.prems by (auto intro: antisym)
    ultimately show ?thesis by (intro exI [of _ "[]"]) simp
  next
    case (Some idx')
    note nx = comb_next_Some [OF less.prems Some]
    have "{t. isCombination ?n k t \<and> idx' < t} \<subset> {t. isCombination ?n k t \<and> idx < t}"
      using nx(1,2) by auto
    then have "card {t. isCombination ?n k t \<and> idx' < t}
        < card {t. isCombination ?n k t \<and> idx < t}"
      using finite_isCombination [of ?n k] by (intro psubset_card_mono) auto
    from less.hyps [OF this nx(1)]
    obtain L where L: "comb_run arr k idx' = Some (map (map (jsIndex arr)) (idx' # L))"
        "sorted_wrt (<) (idx' # L)"
        "set (idx' # L) = {t. isCombination ?n k t \<and> idx' \<le> t}"
      by blast
    have r: "comb_run arr k idx = Some (map (map (jsIndex arr)) (idx # idx' # L))"
      by (subst comb_run.simps) (simp add: Some L(1))
    have s: "sorted_wrt (<) (idx # idx' # L)"
      using L(2) nx(2) by auto
    have "set (idx # idx' # L) = {t. isCombination ?n k t \<and> idx \<le> t}"
    proof (intro set_eqI iffI)
      fix t assume "t \<in> set (idx # idx' # L)"
      then have "t = idx \<or> (isCombination ?n k t \<and> idx' \<le> t)" using L(3) by auto
      then show "t \<in> {t. isCombination ?n k t \<and> idx \<le> t}"
        using less.prems nx(2) by auto
    next
      fix t assume "t \<in> {t. isCombination ?n k t \<and> idx \<le> t}"
      then have t: "isCombination ?n k t" "idx \<le> t" by auto
      show "t \<in> set (idx # idx' # L)"
      proof (cases "t = idx")
        case True
        then show ?thesis by simp
      next
        case False
        then have "idx' \<le> t" using nx(3) [OF t(1)] t(2) by simp
        then have "t \<in> set (idx' # L)" using L(3) t(1) by blast
        then show ?thesis by simp
      qed
    qed
    with r s show ?thesis by blast
  qed
qed

lemma combinations_result:
  assumes "k \<le> length arr"
  shows "\<exists>L. combinations arr k = Some (map (map (jsIndex arr)) L)
      \<and> sorted_wrt (<) L \<and> set L = {t. isCombination (length arr) k t}"
proof (cases "k = 0")
  case True
  have "{t. isCombination (length arr) 0 t} = {[]}"
    by (auto simp: isCombination_def)
  then show ?thesis using True
    by (intro exI [of _ "[[]]"]) (simp add: combinations_def)
next
  case False
  from comb_run_result [OF isCombination_first(1) [OF assms]]
  obtain L where L: "comb_run arr k [0..<k] = Some (map (map (jsIndex arr)) ([0..<k] # L))"
      "sorted_wrt (<) ([0..<k] # L)"
      "set ([0..<k] # L) = {t. isCombination (length arr) k t \<and> [0..<k] \<le> t}"
    by blast
  have "set ([0..<k] # L) = {t. isCombination (length arr) k t}"
    using L(3) isCombination_first(2) [OF assms] by auto
  then show ?thesis using False L(1,2)
    by (intro exI [of _ "[0..<k] # L"]) (simp add: combinations_def)
qed

lemma card_isCombination: "card {t. isCombination n k t} = n choose k"
proof -
  let ?S = "{t. isCombination n k t}"
  have inj: "inj_on set ?S"
  proof (rule inj_onI)
    fix x y assume "x \<in> ?S" "y \<in> ?S" "set x = set y"
    then show "x = y"
      by (auto simp: isCombination_def strict_sorted_iff intro: sorted_distinct_set_unique)
  qed
  have img: "set ` ?S = {B. B \<subseteq> {..<n} \<and> card B = k}"
  proof (intro set_eqI iffI)
    fix B assume "B \<in> set ` ?S"
    then obtain t where t: "isCombination n k t" "B = set t" by auto
    then have "distinct t" by (simp add: isCombination_def strict_sorted_iff)
    then show "B \<in> {B. B \<subseteq> {..<n} \<and> card B = k}"
      using t by (auto simp: isCombination_def list_all_iff distinct_card)
  next
    fix B assume "B \<in> {B. B \<subseteq> {..<n} \<and> card B = k}"
    then have B: "B \<subseteq> {..<n}" "card B = k" by auto
    then have f: "finite B" using finite_subset by blast
    have "isCombination n k (sorted_list_of_set B)"
      using B f by (auto simp: isCombination_def list_all_iff)
    moreover have "set (sorted_list_of_set B) = B" using f by simp
    ultimately show "B \<in> set ` ?S" by (metis (mono_tags, lifting) image_eqI mem_Collect_eq)
  qed
  have "card ?S = card (set ` ?S)" using inj by (simp add: card_image)
  also have "\<dots> = n choose k" using n_subsets [of "{..<n}" k] by (simp add: img)
  finally show ?thesis .
qed

lemma jsIndex_isCombination:
  "isCombination (length arr) k t \<Longrightarrow> map (jsIndex arr) t = map (\<lambda>i. Some (arr ! i)) t"
  by (auto simp: isCombination_def list_all_iff jsIndex_def)

text \<open>
  C7. For \<open>k \<le> n\<close> the generator ends, and the subsets it yields are the elements of
  \<open>arr\<close> at the index tuples of a list \<open>L\<close> that has \<open>C(n, k)\<close> entries, each of them \<open>k\<close>
  strictly increasing positions below \<open>n\<close>, contains every such tuple, contains none
  twice and is in increasing lexicographic order; for \<open>k = 0\<close> the only subset is the
  empty one.
\<close>

theorem combinations_correct:
  assumes "k \<le> length arr"
  shows "\<exists>L. combinations arr k = Some (map (map (\<lambda>i. Some (arr ! i))) L)
      \<and> length L = length arr choose k
      \<and> list_all (isCombination (length arr) k) L
      \<and> (\<forall>t. isCombination (length arr) k t \<longrightarrow> t \<in> set L)
      \<and> distinct L
      \<and> sorted_wrt (<) L
      \<and> (k = 0 \<longrightarrow> L = [[]])"
proof -
  obtain L where LL: "combinations arr k = Some (map (map (jsIndex arr)) L)
      \<and> sorted_wrt (<) L \<and> set L = {t. isCombination (length arr) k t}"
    using combinations_result [OF assms] by (rule exE)
  have L: "combinations arr k = Some (map (map (jsIndex arr)) L)"
      "sorted_wrt (<) L" "set L = {t. isCombination (length arr) k t}"
    using LL by simp_all
  have d: "distinct L" using L(2) by (simp add: strict_sorted_iff)
  have "map (map (jsIndex arr)) L = map (map (\<lambda>i. Some (arr ! i))) L"
    using L(3) by (intro map_cong refl jsIndex_isCombination) auto
  then have 1: "combinations arr k = Some (map (map (\<lambda>i. Some (arr ! i))) L)"
    using L(1) by simp
  have 2: "length L = length arr choose k"
    using distinct_card [OF d] L(3) card_isCombination [of "length arr" k] by simp
  have 3: "list_all (isCombination (length arr) k) L"
    using L(3) by (simp add: list_all_iff)
  have 4: "k = 0 \<longrightarrow> L = [[]]"
  proof
    assume k0: "k = 0"
    have e: "{t. isCombination (length arr) 0 t} = {[]}" by (auto simp: isCombination_def)
    have s: "set L = {[]}" by (simp only: L(3) k0 e)
    then obtain x xs where x: "L = x # xs" by (cases L) auto
    with s have "x = []" "\<forall>y\<in>set xs. y = []" by auto
    moreover have "x \<notin> set xs" using d x by simp
    ultimately have "xs = []" by (cases xs) auto
    with x \<open>x = []\<close> show "L = [[]]" by simp
  qed
  have 5: "\<forall>t. isCombination (length arr) k t \<longrightarrow> t \<in> set L" using L(3) by simp
  show ?thesis
    by (intro exI [of _ L] conjI) (fact 1 2 3 4 5 d L(2))+
qed

theorem combinations_correct_witness:
  "(2::nat) \<le> length [0, 1, 2, 3 :: nat]
   \<and> combinations [0, 1, 2, 3 :: nat] 2 =
       Some [[Some 0, Some 1], [Some 0, Some 2], [Some 0, Some 3],
             [Some 1, Some 2], [Some 1, Some 3], [Some 2, Some 3]]
   \<and> (\<exists>L. combinations [0, 1, 2, 3 :: nat] 2 =
             Some (map (map (\<lambda>i. Some ([0, 1, 2, 3 :: nat] ! i))) L)
          \<and> length L = 6 \<and> isCombination 4 2 [1, 3] \<and> [1, 3] \<in> set L \<and> distinct L
          \<and> sorted_wrt (<) L)
   \<and> (\<exists>L. combinations [0, 1, 2, 3 :: nat] 0 =
             Some (map (map (\<lambda>i. Some ([0, 1, 2, 3 :: nat] ! i))) L) \<and> L = [[]])"
proof -
  have h2: "(2::nat) \<le> length [0, 1, 2, 3 :: nat]" by simp
  have h0: "(0::nat) \<le> length [0, 1, 2, 3 :: nat]" by simp
  have l: "length [0, 1, 2, 3 :: nat] = 4" by simp
  have c: "isCombination 4 2 [1, 3]" by (simp add: isCombination_def)
  have b: "(4::nat) choose 2 = 6" by code_simp
  have e: "combinations [0, 1, 2, 3 :: nat] 2 =
       Some [[Some 0, Some 1], [Some 0, Some 2], [Some 0, Some 3],
             [Some 1, Some 2], [Some 1, Some 3], [Some 2, Some 3]]"
    by code_simp
  from combinations_correct [OF h2, unfolded l b]
  obtain L where L: "combinations [0, 1, 2, 3 :: nat] 2 =
        Some (map (map (\<lambda>i. Some ([0, 1, 2, 3 :: nat] ! i))) L)"
      "length L = 6" "\<forall>t. isCombination 4 2 t \<longrightarrow> t \<in> set L" "distinct L" "sorted_wrt (<) L"
    by blast
  from combinations_correct [OF h0]
  obtain L0 where L0: "combinations [0, 1, 2, 3 :: nat] 0 =
        Some (map (map (\<lambda>i. Some ([0, 1, 2, 3 :: nat] ! i))) L0)" "L0 = [[]]"
    by blast
  have m: "[1, 3] \<in> set L" using L(3) c by blast
  show ?thesis
    using h2 e c L(1,2,4,5) m L0 by blast
qed

section \<open>Consistency solver: the search over the enumerated subsets\<close>

lemma searchFrom_run:
  "comb_run [0..<length shares] k idx = Some L \<Longrightarrow>
   searchFrom shares n k idx b = Some (searchList shares n L b)"
proof (induction L arbitrary: idx b)
  case Nil
  then show ?case
    by (subst (asm) comb_run.simps) (auto split: option.splits simp: bind_eq_Some_conv)
next
  case (Cons x rest)
  let ?arr = "[0..<length shares]"
  show ?case
  proof (cases "comb_next (length shares) k idx")
    case None
    have "comb_run ?arr k idx = Some [map (jsIndex ?arr) idx]"
      by (subst comb_run.simps) (simp add: None)
    then have x: "x = map (jsIndex ?arr) idx" "rest = []" using Cons.prems by simp_all
    show ?thesis
      by (subst searchFrom.simps) (simp add: None x split: sum.splits)
  next
    case (Some idx')
    have "comb_run ?arr k idx =
        Option.bind (comb_run ?arr k idx') (\<lambda>r. Some (map (jsIndex ?arr) idx # r))"
      by (subst comb_run.simps) (simp add: Some)
    then have "Option.bind (comb_run ?arr k idx') (\<lambda>r. Some (map (jsIndex ?arr) idx # r))
        = Some (x # rest)"
      using Cons.prems by simp
    then have x: "x = map (jsIndex ?arr) idx" "comb_run ?arr k idx' = Some rest"
      by (auto simp: bind_eq_Some_conv)
    show ?thesis
      by (subst searchFrom.simps) (simp add: Some x(1) Cons.IH [OF x(2)] split: sum.splits)
  qed
qed

lemma search_searchList:
  assumes "combinations [0..<length shares] k = Some L"
  shows "search shares n k = Some (searchList shares n L initialBest)"
proof (cases "k = 0")
  case True
  then have "L = [[]]" using assms by (simp add: combinations_def)
  then show ?thesis using True by (simp add: search_def split: sum.splits)
next
  case False
  then have "comb_run [0..<length shares] k [0..<k] = Some L"
    using assms by (simp add: combinations_def)
  from searchFrom_run [OF this] show ?thesis using False by (simp add: search_def)
qed

lemma agreeLoop_count:
  "agreeLoop shares pts is mc = Inr mc' \<Longrightarrow>
     snd mc \<le> snd mc' \<and> snd mc' \<le> snd mc + int (length is)"
proof (induction "is" arbitrary: mc)
  case Nil
  then show ?case by simp
next
  case (Cons i "is")
  from Cons.prems obtain e where e: "i < length shares"
      "lagrangeEvalAt pts (share_x (shares ! i)) = Inr e"
    by (auto split: if_splits sum.splits)
  show ?case
  proof (cases "rd e = 1 \<and> rn e = share_y (shares ! i)")
    case True
    then have "agreeLoop shares pts is ((fst mc)[i := True], snd mc + 1) = Inr mc'"
      using Cons.prems e by simp
    from Cons.IH [OF this] show ?thesis by simp
  next
    case False
    then have "agreeLoop shares pts is mc = Inr mc'"
      using Cons.prems e by auto
    from Cons.IH [OF this] show ?thesis by simp
  qed
qed

lemma trySubset_initial_cases:
  "trySubset shares n idxs initialBest = Inr (c, br) \<Longrightarrow>
     (c = initialBest \<and> \<not> br)
     \<or> (0 \<le> agreeCount c \<and> agreeCount c \<le> int n \<and> br = (agreeCount c = int n))"
  unfolding trySubset_def
  by (auto split: sum.splits if_splits simp: initialBest_def dest!: agreeLoop_count)

lemma trySubset_initial:
  assumes "- 1 \<le> agreeCount b"
  shows "trySubset shares n idxs b =
     (case trySubset shares n idxs initialBest of Inl e \<Rightarrow> Inl e
      | Inr cb \<Rightarrow> if agreeCount (fst cb) > agreeCount b then Inr cb else Inr (b, False))"
  using assms unfolding trySubset_def
  by (auto split: sum.splits simp: initialBest_def dest!: agreeLoop_count)

lemma trySubset_initial_flag:
  "trySubset shares n idxs initialBest = Inr (c, br) \<Longrightarrow>
     - 1 \<le> agreeCount c \<and> agreeCount c \<le> int n \<and> br = (agreeCount c = int n)"
  using trySubset_initial_cases [of shares n idxs c br] by (auto simp: initialBest_def)

lemma searchList_early:
  assumes "- 1 \<le> agreeCount b" "agreeCount b < int n"
    "list_all (\<lambda>t. \<exists>c'. trySubset shares n t initialBest = Inr (c', False)) pre"
    "trySubset shares n s initialBest = Inr (c, True)"
  shows "searchList shares n (pre @ s # post) b = Inr c"
  using assms(1,2,3)
proof (induction pre arbitrary: b)
  case Nil
  have "agreeCount c = int n" using trySubset_initial_flag [OF assms(4)] by simp
  then have "trySubset shares n s b = Inr (c, True)"
    using Nil.prems(2) by (simp add: trySubset_initial [OF Nil.prems(1)] assms(4))
  then show ?case by simp
next
  case (Cons t pre)
  from Cons.prems(3) obtain c' where c': "trySubset shares n t initialBest = Inr (c', False)"
    by auto
  have f: "- 1 \<le> agreeCount c'" "agreeCount c' < int n"
    using trySubset_initial_flag [OF c'] by auto
  define b' where "b' = (if agreeCount c' > agreeCount b then c' else b)"
  have t: "trySubset shares n t b = Inr (b', False)"
    by (simp add: trySubset_initial [OF Cons.prems(1)] c' b'_def)
  have "- 1 \<le> agreeCount b'" "agreeCount b' < int n"
    using f Cons.prems(1,2) by (simp_all add: b'_def)
  from Cons.IH [OF this] Cons.prems(3) have "searchList shares n (pre @ s # post) b' = Inr c"
    by simp
  then show ?case using t by simp
qed

lemma searchList_best:
  assumes "- 1 \<le> agreeCount b" "searchList shares n L b = Inr b'"
  shows "(b' = b
       \<and> list_all (\<lambda>t. \<exists>c br. trySubset shares n t initialBest = Inr (c, br)
                    \<and> agreeCount c \<le> agreeCount b) L)
     \<or> (\<exists>pre s post. L = pre @ s # post
         \<and> trySubset shares n s initialBest = Inr (b', agreeCount b' = int n)
         \<and> agreeCount b < agreeCount b'
         \<and> list_all (\<lambda>t. \<exists>c br. trySubset shares n t initialBest = Inr (c, br)
                      \<and> agreeCount c < agreeCount b') pre
         \<and> (agreeCount b' = int n
              \<or> list_all (\<lambda>t. \<exists>c br. trySubset shares n t initialBest = Inr (c, br)
                           \<and> agreeCount c \<le> agreeCount b') post))"
  using assms
proof (induction L arbitrary: b)
  case Nil
  then show ?case by simp
next
  case (Cons t rest)
  let ?le = "\<lambda>m t. \<exists>c br. trySubset shares n t initialBest = Inr (c, br) \<and> agreeCount c \<le> m"
  let ?lt = "\<lambda>m t. \<exists>c br. trySubset shares n t initialBest = Inr (c, br) \<and> agreeCount c < m"
  from Cons.prems obtain c br where c: "trySubset shares n t initialBest = Inr (c, br)"
    by (cases "trySubset shares n t initialBest")
       (auto simp: trySubset_initial [OF Cons.prems(1), of shares n t])
  have f: "- 1 \<le> agreeCount c" "br = (agreeCount c = int n)"
    using trySubset_initial_flag [OF c] by auto
  show ?case
  proof (cases "agreeCount c > agreeCount b")
    case True
    then have tb: "trySubset shares n t b = Inr (c, br)"
      by (simp add: trySubset_initial [OF Cons.prems(1)] c)
    show ?thesis
    proof (cases br)
      case True
      then have "b' = c" using Cons.prems(2) tb by simp
      then have "t # rest = [] @ t # rest
          \<and> trySubset shares n t initialBest = Inr (b', agreeCount b' = int n)
          \<and> agreeCount b < agreeCount b' \<and> list_all (?lt (agreeCount b')) []
          \<and> (agreeCount b' = int n \<or> list_all (?le (agreeCount b')) rest)"
        using c f True \<open>agreeCount c > agreeCount b\<close> by simp
      then show ?thesis by blast
    next
      case False
      then have r: "searchList shares n rest c = Inr b'" using Cons.prems(2) tb by simp
      from Cons.IH [OF f(1) r]
      consider (same) "b' = c" "list_all (?le (agreeCount c)) rest"
        | (later) pre s post where "rest = pre @ s # post"
            "trySubset shares n s initialBest = Inr (b', agreeCount b' = int n)"
            "agreeCount c < agreeCount b'" "list_all (?lt (agreeCount b')) pre"
            "agreeCount b' = int n \<or> list_all (?le (agreeCount b')) post"
        by blast
      then show ?thesis
      proof cases
        case same
        then have "t # rest = [] @ t # rest
            \<and> trySubset shares n t initialBest = Inr (b', agreeCount b' = int n)
            \<and> agreeCount b < agreeCount b' \<and> list_all (?lt (agreeCount b')) []
            \<and> (agreeCount b' = int n \<or> list_all (?le (agreeCount b')) rest)"
          using c f True by simp
        then show ?thesis by blast
      next
        case later
        note a = later
        have "?lt (agreeCount b') t" using c a(3) by blast
        then have "t # rest = (t # pre) @ s # post
            \<and> trySubset shares n s initialBest = Inr (b', agreeCount b' = int n)
            \<and> agreeCount b < agreeCount b' \<and> list_all (?lt (agreeCount b')) (t # pre)
            \<and> (agreeCount b' = int n \<or> list_all (?le (agreeCount b')) post)"
          using a True by simp
        then show ?thesis by blast
      qed
    qed
  next
    case False
    then have tb: "trySubset shares n t b = Inr (b, False)"
      by (simp add: trySubset_initial [OF Cons.prems(1)] c)
    then have r: "searchList shares n rest b = Inr b'" using Cons.prems(2) by simp
    have le: "?le (agreeCount b) t" using c False by fastforce
    from Cons.IH [OF Cons.prems(1) r]
    consider (same) "b' = b" "list_all (?le (agreeCount b)) rest"
      | (later) pre s post where "rest = pre @ s # post"
          "trySubset shares n s initialBest = Inr (b', agreeCount b' = int n)"
          "agreeCount b < agreeCount b'" "list_all (?lt (agreeCount b')) pre"
          "agreeCount b' = int n \<or> list_all (?le (agreeCount b')) post"
      by blast
    then show ?thesis
    proof cases
      case same
      then show ?thesis using le by simp
    next
      case later
      note a = later
      have "?lt (agreeCount b') t" using c False a(3) by fastforce
      then have "t # rest = (t # pre) @ s # post
          \<and> trySubset shares n s initialBest = Inr (b', agreeCount b' = int n)
          \<and> agreeCount b < agreeCount b' \<and> list_all (?lt (agreeCount b')) (t # pre)
          \<and> (agreeCount b' = int n \<or> list_all (?le (agreeCount b')) post)"
        using a by simp
      then show ?thesis by blast
    qed
  qed
qed

text \<open>
  C5. Let \<open>L\<close> be the subsets in the order the generator yields them, and call the outcome
  of a subset what the loop body makes of it from the initial \<open>best\<close>. If a subset of \<open>L\<close>
  has agreement count \<open>n\<close> and every subset before it has an outcome with another count,
  the search returns this subset's candidate, whatever comes after it. And a candidate
  that the search returns is the outcome of a subset of \<open>L\<close> before which every outcome
  has a strictly smaller count and, unless its count is \<open>n\<close>, after which every outcome
  has a count that is not greater.
\<close>

theorem search_first_maximum:
  assumes "combinations [0..<length shares] k = Some L"
  shows "(\<forall>pre s post c. L = pre @ s # post
            \<and> list_all (\<lambda>t. \<exists>c'. trySubset shares n t initialBest = Inr (c', False)) pre
            \<and> trySubset shares n s initialBest = Inr (c, True)
          \<longrightarrow> search shares n k = Some (Inr c))
     \<and> (\<forall>b. search shares n k = Some (Inr b) \<and> b \<noteq> initialBest
          \<longrightarrow> (\<exists>pre s post. L = pre @ s # post
                \<and> trySubset shares n s initialBest = Inr (b, agreeCount b = int n)
                \<and> list_all (\<lambda>t. \<exists>c br. trySubset shares n t initialBest = Inr (c, br)
                             \<and> agreeCount c < agreeCount b) pre
                \<and> (agreeCount b = int n
                     \<or> list_all (\<lambda>t. \<exists>c br. trySubset shares n t initialBest = Inr (c, br)
                                  \<and> agreeCount c \<le> agreeCount b) post)))"
proof (intro conjI allI impI)
  fix pre s post c
  assume a: "L = pre @ s # post
      \<and> list_all (\<lambda>t. \<exists>c'. trySubset shares n t initialBest = Inr (c', False)) pre
      \<and> trySubset shares n s initialBest = Inr (c, True)"
  have i: "- 1 \<le> agreeCount initialBest" "agreeCount initialBest < int n"
    by (simp_all add: initialBest_def)
  have "searchList shares n (pre @ s # post) initialBest = Inr c"
    using a by (intro searchList_early [OF i]) simp_all
  then show "search shares n k = Some (Inr c)"
    using a by (simp add: search_searchList [OF assms])
next
  fix b
  assume a: "search shares n k = Some (Inr b) \<and> b \<noteq> initialBest"
  have i: "- 1 \<le> agreeCount initialBest" by (simp add: initialBest_def)
  have "searchList shares n L initialBest = Inr b"
    using a by (simp add: search_searchList [OF assms])
  from searchList_best [OF i this] a
  show "\<exists>pre s post. L = pre @ s # post
      \<and> trySubset shares n s initialBest = Inr (b, agreeCount b = int n)
      \<and> list_all (\<lambda>t. \<exists>c br. trySubset shares n t initialBest = Inr (c, br)
                   \<and> agreeCount c < agreeCount b) pre
      \<and> (agreeCount b = int n
           \<or> list_all (\<lambda>t. \<exists>c br. trySubset shares n t initialBest = Inr (c, br)
                        \<and> agreeCount c \<le> agreeCount b) post)"
    by blast
qed

theorem search_first_maximum_witness:
  "combinations [0..<length [\<lparr>share_idx = 1, share_x = 1, share_y = 3\<rparr>,
        \<lparr>share_idx = 2, share_x = 2, share_y = 5\<rparr>, \<lparr>share_idx = 2, share_x = 2, share_y = 5\<rparr>]] 2
     = Some ([] @ [Some 0, Some 1] # [[Some 0, Some 2], [Some 1, Some 2]])
   \<and> trySubset [\<lparr>share_idx = 1, share_x = 1, share_y = 3\<rparr>,
        \<lparr>share_idx = 2, share_x = 2, share_y = 5\<rparr>, \<lparr>share_idx = 2, share_x = 2, share_y = 5\<rparr>] 3
        [Some 0, Some 1] initialBest
     = Inr (\<lparr>agreeCount = 3, secretF0 = Some 1, subset_idxs = Some [Some 0, Some 1],
             agrees = Some [True, True, True]\<rparr>, True)
   \<and> trySubset [\<lparr>share_idx = 1, share_x = 1, share_y = 3\<rparr>,
        \<lparr>share_idx = 2, share_x = 2, share_y = 5\<rparr>, \<lparr>share_idx = 2, share_x = 2, share_y = 5\<rparr>] 3
        [Some 1, Some 2] initialBest
     = Inl DivisionByZero
   \<and> search [\<lparr>share_idx = 1, share_x = 1, share_y = 3\<rparr>,
        \<lparr>share_idx = 2, share_x = 2, share_y = 5\<rparr>, \<lparr>share_idx = 2, share_x = 2, share_y = 5\<rparr>] 3 2
     = Some (Inr \<lparr>agreeCount = 3, secretF0 = Some 1, subset_idxs = Some [Some 0, Some 1],
             agrees = Some [True, True, True]\<rparr>)
   \<and> (\<exists>pre s post. [[Some 0, Some 1], [Some 0, Some 2], [Some 1, Some 2]] = pre @ s # post
        \<and> trySubset [\<lparr>share_idx = 1, share_x = 1, share_y = 3\<rparr>,
             \<lparr>share_idx = 2, share_x = 2, share_y = 5\<rparr>,
             \<lparr>share_idx = 2, share_x = 2, share_y = 5\<rparr>] 3 s initialBest
           = Inr (\<lparr>agreeCount = 3, secretF0 = Some 1, subset_idxs = Some [Some 0, Some 1],
                   agrees = Some [True, True, True]\<rparr>, True))"
proof -
  define S where "S = [\<lparr>share_idx = 1, share_x = 1, share_y = 3\<rparr>,
        \<lparr>share_idx = 2, share_x = 2, share_y = 5\<rparr>, \<lparr>share_idx = 2, share_x = 2, share_y = 5\<rparr>]"
  define C where "C = \<lparr>agreeCount = 3, secretF0 = Some 1, subset_idxs = Some [Some (0::nat), Some 1],
             agrees = Some [True, True, True]\<rparr>"
  have l: "combinations [0..<length S] 2
      = Some ([] @ [Some 0, Some 1] # [[Some 0, Some 2], [Some 1, Some 2]])"
    unfolding S_def by code_simp
  have s: "trySubset S 3 [Some 0, Some 1] initialBest = Inr (C, True)"
    unfolding S_def C_def by code_simp
  have e: "trySubset S 3 [Some 1, Some 2] initialBest = Inl DivisionByZero"
    unfolding S_def by code_simp
  have ne: "C \<noteq> initialBest" by (simp add: C_def initialBest_def)
  note inst = search_first_maximum [OF l, of 3]
  from inst l s have r: "search S 3 2 = Some (Inr C)"
    by (elim conjE allE [of _ "[]"] allE [of _ "[Some 0, Some 1]"]
        allE [of _ "[[Some 0, Some 2], [Some 1, Some 2]]"] allE [of _ C]) simp
  from inst r ne have "\<exists>pre s post. [] @ [Some 0, Some 1] # [[Some 0, Some 2], [Some 1, Some 2]]
        = pre @ s # post
      \<and> trySubset S 3 s initialBest = Inr (C, agreeCount C = int 3)"
    by blast
  then have x: "\<exists>pre s post. [[Some 0, Some 1], [Some 0, Some 2], [Some 1, Some 2]] = pre @ s # post
      \<and> trySubset S 3 s initialBest = Inr (C, True)"
    by (simp add: C_def)
  show ?thesis using l s e r x unfolding S_def C_def by simp
qed

section \<open>Consistency solver: the shares of the basis agree\<close>

lemma subsetPoints_Some:
  "list_all (\<lambda>i. i < length shares) t \<Longrightarrow>
   subsetPoints shares (map Some t) =
     Inr (map (\<lambda>i. \<lparr>px = share_x (shares ! i), py = share_y (shares ! i)\<rparr>) t)"
  by (induction t) simp_all

lemma subsetPoints_None: "None \<in> set idxs \<Longrightarrow> subsetPoints shares idxs = Inl TypeError"
proof (induction idxs)
  case Nil
  then show ?case by simp
next
  case (Cons a idxs)
  then show ?case by (cases a) (auto split: sum.splits)
qed

lemma agreeLoop_result:
  assumes "distinct (map px pts)" "list_all (\<lambda>i. i < length shares) is"
  shows "agreeLoop shares pts is mc =
     Inr (fold (\<lambda>i m. if agreesWith shares pts i then m[i := True] else m) is (fst mc),
          snd mc + int (length (filter (agreesWith shares pts) is)))"
  using assms(2)
proof (induction "is" arbitrary: mc)
  case Nil
  then show ?case by simp
next
  case (Cons i "is")
  obtain e where e: "lagrangeEvalAt pts (share_x (shares ! i)) = Inr e"
    using lagrangeEvalAt_result [OF assms(1), of "share_x (shares ! i)"]
    by (auto elim: representsE)
  have a: "agreesWith shares pts i = (rd e = 1 \<and> rn e = share_y (shares ! i))"
    by (simp add: agreesWith_def e)
  from Cons.prems have i: "i < length shares" and r: "list_all (\<lambda>i. i < length shares) is"
    by simp_all
  show ?case
  proof (cases "agreesWith shares pts i")
    case True
    then show ?thesis using a e i Cons.IH [OF r, of "((fst mc)[i := True], snd mc + 1)"]
      by simp
  next
    case False
    then show ?thesis using a e i Cons.IH [OF r, of mc] by auto
  qed
qed

lemma agree_fold_length:
  "length (fold (\<lambda>i m. if P i then m[i := True] else m) is m) = length m"
  by (induction "is" arbitrary: m) auto

lemma agree_fold_nth:
  "i < length m \<Longrightarrow>
   fold (\<lambda>i m. if P i then m[i := True] else m) is m ! i = (m ! i \<or> (i \<in> set is \<and> P i))"
proof (induction "is" arbitrary: m)
  case Nil
  then show ?case by simp
next
  case (Cons j "is")
  define m' where "m' = (if P j then m[j := True] else m)"
  have l: "i < length m'" using Cons.prems by (simp add: m'_def)
  have h: "m' ! i = (m ! i \<or> (i = j \<and> P j))"
    using Cons.prems by (cases "i = j") (auto simp: m'_def)
  have "fold (\<lambda>i m. if P i then m[i := True] else m) (j # is) m ! i
      = fold (\<lambda>i m. if P i then m[i := True] else m) is m' ! i"
    by (simp add: m'_def)
  also have "\<dots> = (m' ! i \<or> (i \<in> set is \<and> P i))" by (rule Cons.IH [OF l])
  finally show ?case using h by auto
qed

lemma basis_agreesWith:
  assumes dp: "distinct (map px (map (\<lambda>i. \<lparr>px = share_x (shares ! i),
      py = share_y (shares ! i)\<rparr>) t))"
    and c: "isCombination (length shares) k t" and j: "j < k"
  shows "agreesWith shares (map (\<lambda>i. \<lparr>px = share_x (shares ! i), py = share_y (shares ! i)\<rparr>) t)
           (t ! j)"
proof -
  let ?pts = "map (\<lambda>i. \<lparr>px = share_x (shares ! i), py = share_y (shares ! i)\<rparr>) t"
  have l: "length t = k" using c by (simp add: isCombination_def)
  have pj: "?pts ! j = \<lparr>px = share_x (shares ! (t ! j)), py = share_y (shares ! (t ! j))\<rparr>"
    using j l by simp
  obtain e where e: "lagrangeEvalAt ?pts (share_x (shares ! (t ! j))) = Inr e" "canonical e"
      "valueOf e = lagrangeFormula ?pts (of_int (share_x (shares ! (t ! j))))"
    using lagrangeEvalAt_result [OF dp, of "share_x (shares ! (t ! j))"]
    by (auto elim: representsE)
  have "lagrangeFormula ?pts (of_int (px (?pts ! j))) = of_int (py (?pts ! j))"
    using j l by (intro lagrangeFormula_node [OF dp]) simp
  then have "valueOf e = of_int (share_y (shares ! (t ! j)))"
    using e(3) by (simp add: pj)
  from canonical_of_int [OF e(2) this] show ?thesis
    by (simp add: agreesWith_def e(1))
qed

lemma basis_agreeLoop:
  assumes dp: "distinct (map px (map (\<lambda>i. \<lparr>px = share_x (shares ! i),
      py = share_y (shares ! i)\<rparr>) t))"
    and c: "isCombination (length shares) k t"
  shows "\<exists>flags count.
      agreeLoop shares (map (\<lambda>i. \<lparr>px = share_x (shares ! i), py = share_y (shares ! i)\<rparr>) t)
        [0..<length shares] (replicate (length shares) False, 0) = Inr (flags, count)
      \<and> length flags = length shares
      \<and> count = int (length (filter (\<lambda>i. flags ! i) [0..<length shares]))
      \<and> list_all (\<lambda>i. flags ! i) t
      \<and> int k \<le> count"
proof -
  let ?n = "length shares"
  let ?pts = "map (\<lambda>i. \<lparr>px = share_x (shares ! i), py = share_y (shares ! i)\<rparr>) t"
  let ?A = "agreesWith shares ?pts"
  define flags where
    "flags = fold (\<lambda>i m. if ?A i then m[i := True] else m) [0..<?n] (replicate ?n False)"
  have r: "agreeLoop shares ?pts [0..<?n] (replicate ?n False, 0)
      = Inr (flags, int (length (filter ?A [0..<?n])))"
    using agreeLoop_result [OF dp, of shares "[0..<?n]" "(replicate ?n False, 0)"]
    by (simp add: flags_def list_all_iff)
  have lf: "length flags = ?n" by (simp add: flags_def agree_fold_length)
  have nth: "flags ! i = ?A i" if "i < ?n" for i
    using that agree_fold_nth [of i "replicate ?n False" ?A "[0..<?n]"] by (simp add: flags_def)
  have f: "filter (\<lambda>i. flags ! i) [0..<?n] = filter ?A [0..<?n]"
    by (rule filter_cong) (simp_all add: nth)
  have l: "length t = k" and lt: "\<And>p. p < k \<Longrightarrow> t ! p < ?n"
    using c by (auto simp: isCombination_nth)
  have ag: "?A i" if "i \<in> set t" for i
  proof -
    from that obtain j where "j < k" "i = t ! j" using l by (auto simp: in_set_conv_nth)
    then show ?thesis using basis_agreesWith [OF dp c, of j] by simp
  qed
  have bd: "i < ?n" if "i \<in> set t" for i
    using that lt l by (auto simp: in_set_conv_nth)
  have all: "list_all (\<lambda>i. flags ! i) t"
    using ag bd by (simp add: list_all_iff nth)
  have "distinct t" using c by (simp add: isCombination_def strict_sorted_iff)
  then have "k = card (set t)" using l by (simp add: distinct_card)
  also have "\<dots> \<le> card (set (filter ?A [0..<?n]))"
    using ag bd by (intro card_mono) auto
  also have "\<dots> \<le> length (filter ?A [0..<?n])" by (rule card_length)
  finally have "int k \<le> int (length (filter ?A [0..<?n]))" by simp
  then show ?thesis using r lf f all by auto
qed

lemma agreeLoop_bound:
  "agreeLoop shares pts is mc = Inr mc' \<Longrightarrow> list_all (\<lambda>i. i < length shares) is"
proof (induction "is" arbitrary: mc)
  case Nil
  then show ?case by simp
next
  case (Cons i "is")
  then show ?case by (auto split: if_splits sum.splits)
qed

lemma trySubset_good:
  assumes c: "isCombination (length shares) k t" and le: "length shares \<le> n"
    and r: "trySubset shares n (map Some t) b = Inr (b', br)"
  shows "b' = b \<or> goodBest n k b'"
proof -
  let ?pts = "map (\<lambda>i. \<lparr>px = share_x (shares ! i), py = share_y (shares ! i)\<rparr>) t"
  have sp: "subsetPoints shares (map Some t) = Inr ?pts"
    using c by (intro subsetPoints_Some) (simp add: isCombination_def)
  from r obtain f0 where f0: "lagrangeEvalAt ?pts 0 = Inr f0"
    unfolding trySubset_def sp by (cases "lagrangeEvalAt ?pts 0") auto
  have dp: "distinct (map px ?pts)"
    using f0 lagrangeEvalAt_DivisionByZero [of ?pts 0] by auto
  show ?thesis
  proof (cases "rd f0 = 1")
    case False
    then show ?thesis using r unfolding trySubset_def sp by (simp add: f0)
  next
    case True
    from r obtain mc where al: "agreeLoop shares ?pts [0..<n] (replicate n False, 0) = Inr mc"
      unfolding trySubset_def sp
      by (cases "agreeLoop shares ?pts [0..<n] (replicate n False, 0)") (auto simp: f0 True)
    have "list_all (\<lambda>i. i < length shares) [0..<n]" by (rule agreeLoop_bound [OF al])
    then have "n \<le> length shares" by (cases n) (simp_all add: list_all_iff)
    then have n: "n = length shares" using le by simp
    obtain flags count where a:
        "agreeLoop shares ?pts [0..<n] (replicate n False, 0) = Inr (flags, count)"
        "length flags = n" "count = int (length (filter (\<lambda>i. flags ! i) [0..<n]))"
        "int k \<le> count"
      using basis_agreeLoop [OF dp c] unfolding n by blast
    show ?thesis
    proof (cases "count > agreeCount b")
      case False
      then show ?thesis using r unfolding trySubset_def sp by (simp add: f0 True a(1))
    next
      case gt: True
      then have "b' = \<lparr>agreeCount = count, secretF0 = Some (rn f0),
          subset_idxs = Some (map Some t), agrees = Some flags\<rparr>"
        using r unfolding trySubset_def sp by (simp add: f0 True a(1))
      then have "goodBest n k b'"
        unfolding goodBest_def using a(2,3,4) by simp
      then show ?thesis by simp
    qed
  qed
qed

lemma searchList_invariant:
  assumes "\<And>t b b' br. t \<in> set L \<Longrightarrow> trySubset shares n t b = Inr (b', br) \<Longrightarrow> b' = b \<or> P b'"
    and "searchList shares n L b = Inr b'"
  shows "b' = b \<or> P b'"
  using assms
proof (induction L arbitrary: b)
  case Nil
  then show ?case by simp
next
  case (Cons t rest)
  from Cons.prems(2) obtain c br where t: "trySubset shares n t b = Inr (c, br)"
    by (cases "trySubset shares n t b") auto
  have s: "c = b \<or> P c" using Cons.prems(1) [OF _ t] by simp
  show ?case
  proof (cases br)
    case True
    then show ?thesis using Cons.prems(2) t s by simp
  next
    case False
    then have sr: "searchList shares n rest c = Inr b'" using Cons.prems(2) t by simp
    have st: "b2 = b1 \<or> P b2"
      if "u \<in> set rest" "trySubset shares n u b1 = Inr (b2, br2)" for u b1 b2 br2
      using Cons.prems(1) [of u b1 b2 br2] that by simp
    have "b' = c \<or> P b'" by (rule Cons.IH [OF st sr])
    then show ?thesis using s by auto
  qed
qed

lemma search_too_many:
  assumes "length shares < k"
  shows "search shares n k = Some (Inl TypeError)"
proof -
  have "jsIndex [0..<length shares] (length shares) = None" by (simp add: jsIndex_def)
  moreover have "length shares \<in> set [0..<k]" using assms by simp
  ultimately have "None \<in> set (map (jsIndex [0..<length shares]) [0..<k])"
    by (metis image_eqI set_map)
  then have "trySubset shares n (map (jsIndex [0..<length shares]) [0..<k]) initialBest
      = Inl TypeError"
    by (simp add: trySubset_def subsetPoints_None)
  then have "searchFrom shares n k [0..<k] initialBest = Some (Inl TypeError)"
    by (subst searchFrom.simps) simp
  then show ?thesis using assms by (simp add: search_def)
qed

lemma search_good:
  assumes le: "length shares \<le> n"
    and r: "search shares n k = Some (Inr b)"
  shows "b = initialBest \<or> goodBest n k b"
proof (cases "k \<le> length shares")
  case False
  then show ?thesis using search_too_many [of shares k n] r by simp
next
  case True
  let ?arr = "[0..<length shares]"
  have lk: "k \<le> length ?arr" using True by simp
  obtain L where LL: "combinations ?arr k = Some (map (map (jsIndex ?arr)) L)
      \<and> sorted_wrt (<) L \<and> set L = {t. isCombination (length ?arr) k t}"
    using combinations_result [OF lk] by (rule exE)
  then have L: "combinations ?arr k = Some (map (map (jsIndex ?arr)) L)"
      and sL: "\<And>t. t \<in> set L \<Longrightarrow> isCombination (length shares) k t"
    by simp_all
  have sl: "searchList shares n (map (map (jsIndex ?arr)) L) initialBest = Inr b"
    using r by (simp add: search_searchList [OF L])
  have step: "b' = b0 \<or> goodBest n k b'"
    if "s \<in> set (map (map (jsIndex ?arr)) L)"
      "trySubset shares n s b0 = Inr (b', br)" for s b0 b' br
  proof -
    from that(1) obtain t where t: "t \<in> set L" "s = map (jsIndex ?arr) t" by auto
    have c: "isCombination (length shares) k t" by (rule sL [OF t(1)])
    then have "isCombination (length ?arr) k t" by simp
    from jsIndex_isCombination [OF this] have "s = map Some t"
      using t(2) c by (auto simp: isCombination_def list_all_iff)
    then show ?thesis using trySubset_good [OF c le] that(2) by simp
  qed
  from searchList_invariant [of "map (map (jsIndex ?arr)) L" shares n "goodBest n k",
      OF step sl]
  show ?thesis by simp
qed

section \<open>Consistency solver: the result\<close>

lemma classify_Some:
  assumes "list_all (\<lambda>i. i < length shares) is"
  shows "classify shares (Some flags) is ci =
     Inr (fst ci @ map (\<lambda>i. share_idx (shares ! i))
                     (filter (\<lambda>i. i < length flags \<and> flags ! i) is),
          snd ci @ map (\<lambda>i. share_idx (shares ! i))
                     (filter (\<lambda>i. \<not> (i < length flags \<and> flags ! i)) is))"
  using assms
proof (induction "is" arbitrary: ci)
  case Nil
  then show ?case by simp
next
  case (Cons i "is")
  then show ?case by simp
qed

lemma classify_bound:
  "classify shares (Some flags) is ci = Inr ci' \<Longrightarrow> list_all (\<lambda>i. i < length shares) is"
proof (induction "is" arbitrary: ci)
  case Nil
  then show ?case by simp
next
  case (Cons i "is")
  then show ?case by (auto split: if_splits)
qed

lemma parseShares_x:
  "parseShares ps = Inr parsed \<Longrightarrow> map share_x parsed = map fst ps"
proof (induction ps arbitrary: parsed rule: parseShares.induct)
  case 1
  then show ?case by simp
next
  case (2 i base v rest)
  then show ?case by (auto split: sum.splits)
qed

lemma solveShamirLike_consistent:
  assumes n: "length (props inp) \<le> keys_n inp"
    and r: "solveShamirLike inp = Some (Inr res)"
  shows "keys_k inp \<le> length (consistentShareIndices res)"
proof -
  let ?n = "keys_n inp" and ?k = "keys_k inp"
  from r obtain parsed where p: "parseShares (props inp) = Inr parsed"
    unfolding solveShamirLike_def by (cases "parseShares (props inp)") (auto simp: Let_def)
  define shares where "shares = sort_key share_idx parsed"
  have xs: "map share_x parsed = map fst (props inp)" by (rule parseShares_x [OF p])
  have "length parsed = length (props inp)" using xs by (metis length_map)
  then have ls: "length shares \<le> ?n" using n by (simp add: shares_def)
  from r obtain b where b: "search shares ?n ?k = Some (Inr b)"
    unfolding solveShamirLike_def
    by (auto simp: Let_def p shares_def split: option.splits sum.splits)
  from r obtain ci f where c: "classify shares (agrees b) [0..<?n] ([], []) = Inr ci"
      "secretF0 b = Some f" "consistentShareIndices res = fst ci"
    unfolding solveShamirLike_def
    using b by (auto simp: Let_def p shares_def [symmetric] split: option.splits sum.splits)
  have "b \<noteq> initialBest" using c(2) by (auto simp: initialBest_def)
  then have "goodBest ?n ?k b" using search_good [OF ls b] by simp
  then obtain flags where g: "agrees b = Some flags" "length flags = ?n"
      "agreeCount b = int (length (filter (\<lambda>i. flags ! i) [0..<?n]))" "int ?k \<le> agreeCount b"
    by (auto simp: goodBest_def)
  have cf: "classify shares (Some flags) [0..<?n] ([], []) = Inr ci" using c(1) g(1) by simp
  have "list_all (\<lambda>i. i < length shares) [0..<?n]" by (rule classify_bound [OF cf])
  from classify_Some [OF this, of flags "([], [])"] cf
  have "fst ci = map (\<lambda>i. share_idx (shares ! i))
      (filter (\<lambda>i. i < length flags \<and> flags ! i) [0..<?n])"
    by auto
  moreover have "filter (\<lambda>i. i < length flags \<and> flags ! i) [0..<?n]
      = filter (\<lambda>i. flags ! i) [0..<?n]"
    by (rule filter_cong) (simp_all add: g(2))
  ultimately have "int (length (fst ci)) = agreeCount b" using g(3) by simp
  then show ?thesis using g(4) c(3) by simp
qed

text \<open>
  C9, as it is stated, fails when the declared \<open>n\<close> is smaller than the number of shares.
  With \<open>n = 1\<close>, \<open>k = 2\<close> and the shares (1, 1) and (2, 3), the only 2-subset gives the
  line y = 2x - 1 with the integer - 1 at 0. The agreement loop only tests the first share:
  the count is 1, which is \<open>n\<close>, and the solver returns one consistent index.
\<close>

theorem basis_shares_agree_counterexample:
  "solveShamirLike \<lparr>keys_n = 1, keys_k = 2, props = [(1, 10, ''1''), (2, 10, ''3'')]\<rparr>
     = Some (Inr \<lparr>res_k = 2, res_degree = 1, res_secretF0 = ''-1'',
                  consistentShareIndices = [1], inconsistentShareIndices = []\<rparr>)
   \<and> length (consistentShareIndices \<lparr>res_k = 2, res_degree = 1, res_secretF0 = ''-1'',
                  consistentShareIndices = [1], inconsistentShareIndices = []\<rparr>)
       < keys_k \<lparr>keys_n = 1, keys_k = 2, props = [(1, 10, ''1''), (2, 10, ''3'')]\<rparr>
   \<and> search [\<lparr>share_idx = 1, share_x = 1, share_y = 1\<rparr>,
              \<lparr>share_idx = 2, share_x = 2, share_y = 3\<rparr>] 1 2
     = Some (Inr \<lparr>agreeCount = 1, secretF0 = Some (- 1),
                  subset_idxs = Some [Some 0, Some 1], agrees = Some [True]\<rparr>)"
proof -
  have 1: "solveShamirLike \<lparr>keys_n = 1, keys_k = 2, props = [(1, 10, ''1''), (2, 10, ''3'')]\<rparr>
     = Some (Inr \<lparr>res_k = 2, res_degree = 1, res_secretF0 = ''-1'',
                  consistentShareIndices = [1], inconsistentShareIndices = []\<rparr>)"
    by code_simp
  have 2: "search [\<lparr>share_idx = 1, share_x = 1, share_y = 1\<rparr>,
              \<lparr>share_idx = 2, share_x = 2, share_y = 3\<rparr>] 1 2
     = Some (Inr \<lparr>agreeCount = 1, secretF0 = Some (- 1),
                  subset_idxs = Some [Some 0, Some 1], agrees = Some [True]\<rparr>)"
    by code_simp
  show ?thesis using 1 2 by simp
qed

text \<open>
  C9, amended. Let the declared \<open>n\<close> be at least the number of shares (the input contract
  makes them equal). When the interpolation at 0 through a \<open>k\<close>-subset succeeds, as it
  does when the subset passes the integrality check, the agreement loop over all the
  shares flags every share of the subset and counts at least \<open>k\<close>. A candidate that the
  search returns has a count of at least \<open>k\<close>, and a result of the solver lists at least
  \<open>k\<close> consistent indices.
\<close>

theorem basis_shares_agree:
  "(isCombination (length shares) k t \<and> subsetPoints shares (map Some t) = Inr pts
      \<and> lagrangeEvalAt pts 0 = Inr f0
      \<longrightarrow> (\<exists>flags count.
            agreeLoop shares pts [0..<length shares] (replicate (length shares) False, 0)
                = Inr (flags, count)
            \<and> list_all (\<lambda>i. flags ! i) t \<and> int k \<le> count))
   \<and> (length shares' \<le> n \<and> search shares' n k' = Some (Inr b) \<and> b \<noteq> initialBest
      \<longrightarrow> int k' \<le> agreeCount b)
   \<and> (length (props inp) \<le> keys_n inp \<and> solveShamirLike inp = Some (Inr res)
      \<longrightarrow> keys_k inp \<le> length (consistentShareIndices res))"
proof (intro conjI impI)
  assume a: "isCombination (length shares) k t \<and> subsetPoints shares (map Some t) = Inr pts
      \<and> lagrangeEvalAt pts 0 = Inr f0"
  then have c: "isCombination (length shares) k t" by simp
  then have "subsetPoints shares (map Some t) =
      Inr (map (\<lambda>i. \<lparr>px = share_x (shares ! i), py = share_y (shares ! i)\<rparr>) t)"
    by (intro subsetPoints_Some) (simp add: isCombination_def)
  with a have p: "pts = map (\<lambda>i. \<lparr>px = share_x (shares ! i), py = share_y (shares ! i)\<rparr>) t"
    by simp
  have dp: "distinct (map px pts)"
    using a lagrangeEvalAt_DivisionByZero [of pts 0] by auto
  from basis_agreeLoop [OF dp [unfolded p] c]
  show "\<exists>flags count.
      agreeLoop shares pts [0..<length shares] (replicate (length shares) False, 0)
          = Inr (flags, count)
      \<and> list_all (\<lambda>i. flags ! i) t \<and> int k \<le> count"
    unfolding p by blast
next
  assume "length shares' \<le> n \<and> search shares' n k' = Some (Inr b) \<and> b \<noteq> initialBest"
  then have "goodBest n k' b" using search_good [of shares' n k' b] by blast
  then show "int k' \<le> agreeCount b" by (auto simp: goodBest_def)
next
  assume "length (props inp) \<le> keys_n inp \<and> solveShamirLike inp = Some (Inr res)"
  then show "keys_k inp \<le> length (consistentShareIndices res)"
    using solveShamirLike_consistent [of inp res] by blast
qed

theorem basis_shares_agree_witness:
  "isCombination 4 3 [0, 1, 2]
   \<and> subsetPoints [\<lparr>share_idx = 1, share_x = 1, share_y = 6\<rparr>,
       \<lparr>share_idx = 2, share_x = 2, share_y = 15\<rparr>, \<lparr>share_idx = 3, share_x = 3, share_y = 28\<rparr>,
       \<lparr>share_idx = 4, share_x = 4, share_y = 999\<rparr>] [Some 0, Some 1, Some 2]
      = Inr [\<lparr>px = 1, py = 6\<rparr>, \<lparr>px = 2, py = 15\<rparr>, \<lparr>px = 3, py = 28\<rparr>]
   \<and> lagrangeEvalAt [\<lparr>px = 1, py = 6\<rparr>, \<lparr>px = 2, py = 15\<rparr>, \<lparr>px = 3, py = 28\<rparr>] 0
      = Inr \<lparr>rn = 1, rd = 1\<rparr>
   \<and> (\<exists>flags count. agreeLoop [\<lparr>share_idx = 1, share_x = 1, share_y = 6\<rparr>,
           \<lparr>share_idx = 2, share_x = 2, share_y = 15\<rparr>, \<lparr>share_idx = 3, share_x = 3, share_y = 28\<rparr>,
           \<lparr>share_idx = 4, share_x = 4, share_y = 999\<rparr>]
           [\<lparr>px = 1, py = 6\<rparr>, \<lparr>px = 2, py = 15\<rparr>, \<lparr>px = 3, py = 28\<rparr>]
           [0..<4] (replicate 4 False, 0)
            = Inr (flags, count)
        \<and> list_all (\<lambda>i. flags ! i) [0, 1, 2] \<and> 3 \<le> count)
   \<and> search [\<lparr>share_idx = 1, share_x = 1, share_y = 3\<rparr>,
       \<lparr>share_idx = 2, share_x = 2, share_y = 5\<rparr>, \<lparr>share_idx = 2, share_x = 2, share_y = 5\<rparr>] 3 2
      = Some (Inr \<lparr>agreeCount = 3, secretF0 = Some 1, subset_idxs = Some [Some 0, Some 1],
                  agrees = Some [True, True, True]\<rparr>)
   \<and> int 2 \<le> agreeCount \<lparr>agreeCount = 3, secretF0 = Some 1,
                  subset_idxs = Some [Some (0::nat), Some 1],
                  agrees = Some [True, True, True]\<rparr>
   \<and> solveShamirLike \<lparr>keys_n = 4, keys_k = 3,
        props = [(1, 10, ''6''), (2, 10, ''15''), (3, 10, ''28''), (4, 10, ''999'')]\<rparr>
      = Some (Inr \<lparr>res_k = 3, res_degree = 2, res_secretF0 = ''1'',
                  consistentShareIndices = [1, 2, 3], inconsistentShareIndices = [4]\<rparr>)
   \<and> (3::nat) \<le> length (consistentShareIndices \<lparr>res_k = 3, res_degree = 2,
          res_secretF0 = ''1'', consistentShareIndices = [1, 2, 3],
          inconsistentShareIndices = [4]\<rparr>)"
proof -
  define S where "S = [\<lparr>share_idx = 1, share_x = 1, share_y = 6\<rparr>,
       \<lparr>share_idx = 2, share_x = 2, share_y = 15\<rparr>, \<lparr>share_idx = 3, share_x = 3, share_y = 28\<rparr>,
       \<lparr>share_idx = 4, share_x = 4, share_y = 999\<rparr>]"
  define P where "P = [\<lparr>px = 1, py = 6\<rparr>, \<lparr>px = 2, py = 15\<rparr>, \<lparr>px = 3, py = 28\<rparr>]"
  define D where "D = [\<lparr>share_idx = 1, share_x = 1, share_y = 3\<rparr>,
       \<lparr>share_idx = 2, share_x = 2, share_y = 5\<rparr>, \<lparr>share_idx = 2, share_x = 2, share_y = 5\<rparr>]"
  define B where "B = \<lparr>agreeCount = 3, secretF0 = Some 1,
      subset_idxs = Some [Some (0::nat), Some 1], agrees = Some [True, True, True]\<rparr>"
  define I where "I = \<lparr>keys_n = 4, keys_k = 3,
      props = [(1, 10, ''6''), (2, 10, ''15''), (3, 10, ''28''), (4, 10, ''999'')]\<rparr>"
  define R where "R = \<lparr>res_k = 3, res_degree = 2, res_secretF0 = ''1'',
      consistentShareIndices = [1, 2, 3], inconsistentShareIndices = [4]\<rparr>"
  have l: "length S = 4" by (simp add: S_def)
  have c: "isCombination 4 3 [0, 1, 2]" by (simp add: isCombination_def)
  have sp: "subsetPoints S (map Some [0, 1, 2]) = Inr P" unfolding S_def P_def by code_simp
  have f: "lagrangeEvalAt P 0 = Inr \<lparr>rn = 1, rd = 1\<rparr>" unfolding P_def by code_simp
  have ld: "length D \<le> 3" by (simp add: D_def)
  have s: "search D 3 2 = Some (Inr B)" unfolding D_def B_def by code_simp
  have nb: "B \<noteq> initialBest" by (simp add: B_def initialBest_def)
  have ni: "length (props I) \<le> keys_n I" by (simp add: I_def)
  have r: "solveShamirLike I = Some (Inr R)" unfolding I_def R_def by code_simp
  note inst = basis_shares_agree [of S 3 "[0, 1, 2]" P "\<lparr>rn = 1, rd = 1\<rparr>" D 3 2 B I R,
      unfolded l]
  have 1: "\<exists>flags count. agreeLoop S P [0..<4] (replicate 4 False, 0) = Inr (flags, count)
      \<and> list_all (\<lambda>i. flags ! i) [0, 1, 2] \<and> 3 \<le> count"
    using inst c sp f by simp
  have 2: "int 2 \<le> agreeCount B" using inst ld s nb by blast
  have "keys_k I \<le> length (consistentShareIndices R)" using inst ni r by blast
  then have 3: "(3::nat) \<le> length (consistentShareIndices R)" by (simp add: I_def)
  have sp': "subsetPoints S [Some 0, Some 1, Some 2] = Inr P" using sp by simp
  show ?thesis
    using c sp' f 1 s 2 r 3 unfolding S_def P_def D_def B_def I_def R_def by simp
qed

section \<open>Consistency solver: when every subset is discarded\<close>

text \<open>
  When the loop body leaves \<open>best\<close> as it is for every subset that the generator yields,
  the search ends with the initial \<open>best\<close>, and the solver then fails with a TypeError:
  in the last loop when \<open>n\<close> is positive, at \<^verbatim>\<open>best.secretF0.toString()\<close> otherwise.
\<close>

lemma searchList_all_discarded:
  "list_all (\<lambda>t. trySubset shares n t initialBest = Inr (initialBest, False)) L \<Longrightarrow>
   searchList shares n L initialBest = Inr initialBest"
  by (induction L) simp_all

lemma classify_None: "is \<noteq> [] \<Longrightarrow> classify shares None is ci = Inl TypeError"
  by (cases "is") simp_all

lemma solveShamirLike_all_discarded:
  assumes "parseShares (props inp) = Inr parsed"
    and "combinations [0..<length parsed] (keys_k inp) = Some L"
    and "list_all (\<lambda>t. trySubset (sort_key share_idx parsed) (keys_n inp) t initialBest
                        = Inr (initialBest, False)) L"
  shows "solveShamirLike inp = Some (Inl TypeError)"
proof -
  let ?shares = "sort_key share_idx parsed"
  have "combinations [0..<length ?shares] (keys_k inp) = Some L" using assms(2) by simp
  from search_searchList [OF this, of "keys_n inp"] searchList_all_discarded [OF assms(3)]
  have s: "search ?shares (keys_n inp) (keys_k inp) = Some (Inr initialBest)" by simp
  show ?thesis
  proof (cases "keys_n inp = 0")
    case True
    then show ?thesis
      using s by (simp add: solveShamirLike_def assms(1) Let_def initialBest_def)
  next
    case False
    then have "[0..<keys_n inp] \<noteq> []" by simp
    from classify_None [OF this] show ?thesis
      by (simp add: solveShamirLike_def assms(1) s Let_def initialBest_def)
  qed
qed

end
